theory Spec2Isabelle
  imports Complex_Main
begin

section \<open>The live dashboard of \<^verbatim>\<open>src/inference/dashboard.py\<close>\<close>

text \<open>
  The dashboard keeps seven Python lists (the rolling buffers), drains a queue of tagged
  tuples into them and redraws three matplotlib charts from them. The callback
  \<^verbatim>\<open>update\<close> is modelled as a function on an explicit state; every exception the
  source can raise is a value, and an exception carries the state it leaves behind, since
  a Python exception does not undo the mutations made before it.

  Python floats are modelled as reals: the properties below are about order, subtraction
  and the conversion factor, not about rounding.
\<close>

subsection \<open>Python values and exceptions\<close>

text \<open>
  What a queue entry can hold once it has been unpickled: a number, a string, a tuple
  or list of values, or \<^verbatim>\<open>None\<close>.
\<close>

datatype pyval = Num real | Str string | Tup "pyval list" | NoneV

datatype exn = TypeError | ValueError | IndexError | QueueError

text \<open>
  A statement either completes with the new state or raises, leaving the state it had
  reached.
\<close>

type_synonym 's res = "(exn \<times> 's) + 's"

definition after :: "'s res \<Rightarrow> 's" where
  "after r = (case r of Inl (e, s) \<Rightarrow> s | Inr s \<Rightarrow> s)"

definition then_do :: "'s res \<Rightarrow> ('s \<Rightarrow> 's res) \<Rightarrow> 's res" where
  "then_do r f = (case r of Inl x \<Rightarrow> Inl x | Inr s \<Rightarrow> f s)"

text \<open>Iterating a value, as tuple unpacking does: a string yields its characters.\<close>

fun py_iter :: "pyval \<Rightarrow> exn + pyval list" where
  "py_iter (Tup xs) = Inr xs"
| "py_iter (Str cs) = Inr (map (\<lambda>c. Str [c]) cs)"
| "py_iter (Num r) = Inl TypeError"
| "py_iter NoneV = Inl TypeError"

text \<open>\<^verbatim>\<open>a, b = v\<close> and \<^verbatim>\<open>a, b, c = v\<close>: a wrong number of elements is a ValueError.\<close>

definition unpack2 :: "pyval \<Rightarrow> exn + (pyval \<times> pyval)" where
  "unpack2 v = (case py_iter v of
      Inl e \<Rightarrow> Inl e
    | Inr xs \<Rightarrow> (case xs of [a, b] \<Rightarrow> Inr (a, b) | _ \<Rightarrow> Inl ValueError))"

definition unpack3 :: "pyval \<Rightarrow> exn + (pyval \<times> pyval \<times> pyval)" where
  "unpack3 v = (case py_iter v of
      Inl e \<Rightarrow> Inl e
    | Inr xs \<Rightarrow> (case xs of [a, b, c] \<Rightarrow> Inr (a, b, c) | _ \<Rightarrow> Inl ValueError))"

text \<open>\<^verbatim>\<open>current_time - x\<close> with a float on the left: only a number can be subtracted.\<close>

fun py_rsub :: "real \<Rightarrow> pyval \<Rightarrow> exn + real" where
  "py_rsub now (Num t) = Inr (now - t)"
| "py_rsub now (Str cs) = Inl TypeError"
| "py_rsub now (Tup xs) = Inl TypeError"
| "py_rsub now NoneV = Inl TypeError"

text \<open>\<^verbatim>\<open>v[i]\<close> for an index \<open>i \<ge> 0\<close>.\<close>

fun py_index :: "pyval \<Rightarrow> nat \<Rightarrow> exn + pyval" where
  "py_index (Tup xs) i = (if i < length xs then Inr (xs ! i) else Inl IndexError)"
| "py_index (Str cs) i = (if i < length cs then Inr (Str [cs ! i]) else Inl IndexError)"
| "py_index (Num r) i = Inl TypeError"
| "py_index NoneV i = Inl TypeError"

subsection \<open>The prune loop\<close>

definition max_time_window :: real where
  "max_time_window = 1"

text \<open>
  The inner \<^verbatim>\<open>for data_array in data_arrays: data_array.pop(0)\<close>. Popping an empty
  list raises IndexError; the arrays popped before it stay popped.
\<close>

fun pop_each :: "pyval list list \<Rightarrow> (pyval list list) res" where
  "pop_each [] = Inr []"
| "pop_each ([] # ds) = Inl (IndexError, [] # ds)"
| "pop_each ((x # d) # ds) =
     (case pop_each ds of
        Inl (e, ds') \<Rightarrow> Inl (e, d # ds')
      | Inr ds' \<Rightarrow> Inr (d # ds'))"

text \<open>
  \<^verbatim>\<open>prune_data(time_array, *data_arrays)\<close>. The loop state is the time array, the data
  arrays and a ghost counter of the iterations completed so far. Each iteration pops the
  front of the time array, so the recursion is on its tail.
\<close>

type_synonym prune_state = "nat \<times> pyval list \<times> pyval list list"

fun prune_data :: "real \<Rightarrow> pyval list \<Rightarrow> pyval list list \<Rightarrow> nat \<Rightarrow> prune_state res" where
  "prune_data now [] das n = Inr (n, [], das)"
| "prune_data now (t # ts) das n =
     (case py_rsub now t of
        Inl e \<Rightarrow> Inl (e, (n, t # ts, das))
      | Inr age \<Rightarrow>
          if age > max_time_window then
            (case pop_each das of
               Inl (e, das') \<Rightarrow> Inl (e, (n, ts, das'))
             | Inr das' \<Rightarrow> prune_data now ts das' (Suc n))
          else Inr (n, t # ts, das))"

subsection \<open>The state of the dashboard\<close>

text \<open>
  One matplotlib axes, as far as the callback sets it: the horizontal reference lines,
  the plotted lines (x data, y data) and the two ranges. Titles, labels, legend, grid
  and layout calls set no data and no range and are left out. A twin axes shares the x
  axis of its parent; the callback sets only its y range.
\<close>

record ax =
  hlines :: "real list"
  lines :: "(pyval list \<times> pyval list) list"
  xlim :: "real \<times> real"
  ylim :: "real \<times> real"

record dash =
  time_data :: "pyval list"
  freq_data :: "pyval list"
  position_time :: "pyval list"
  positions :: "pyval list"
  desired_positions :: "pyval list"
  velocity_time :: "pyval list"
  velocities :: "pyval list"
  printed :: "exn list"
  ax_freq :: ax
  ax_pos :: ax
  ax_pos_deg :: "real \<times> real"
  ax_vel :: ax
  ax_vel_deg :: "real \<times> real"

text \<open>\<^verbatim>\<open>ax.clear()\<close>: no lines, default ranges.\<close>

definition cleared :: ax where
  "cleared = \<lparr>hlines = [], lines = [], xlim = (0, 1), ylim = (0, 1)\<rparr>"

text \<open>
  The state when \<^verbatim>\<open>plot_dashboard\<close> has set the figures up: empty buffers, the
  reference line and one empty line on the frequency axes, two empty lines per joint on
  the position axes and one per joint on the velocity axes.
\<close>

definition num_joints :: nat where
  "num_joints = 10"

definition init_dash :: dash where
  "init_dash = \<lparr>time_data = [], freq_data = [], position_time = [], positions = [],
     desired_positions = [], velocity_time = [], velocities = [], printed = [],
     ax_freq = cleared\<lparr>hlines := [50], lines := [([], [])]\<rparr>,
     ax_pos = cleared\<lparr>lines := replicate (2 * num_joints) ([], [])\<rparr>,
     ax_pos_deg = (0, 1),
     ax_vel = cleared\<lparr>lines := replicate num_joints ([], [])\<rparr>,
     ax_vel_deg = (0, 1)\<rparr>"

subsection \<open>The prune step of \<^verbatim>\<open>update\<close>\<close>

text \<open>
  The three calls \<^verbatim>\<open>prune_data(time_data, freq_data)\<close>,
  \<^verbatim>\<open>prune_data(position_time, positions, desired_positions)\<close> and
  \<^verbatim>\<open>prune_data(velocity_time, velocities)\<close>. The lists are mutated in place, so each
  call leaves its arrays in the state, also when it raises.
\<close>

definition prune_freq :: "real \<Rightarrow> dash \<Rightarrow> dash res" where
  "prune_freq now s =
     (case prune_data now (time_data s) [freq_data s] 0 of
        Inl (e, (n, ta, das)) \<Rightarrow> Inl (e, s\<lparr>time_data := ta, freq_data := das ! 0\<rparr>)
      | Inr (n, ta, das) \<Rightarrow> Inr (s\<lparr>time_data := ta, freq_data := das ! 0\<rparr>))"

definition prune_pos :: "real \<Rightarrow> dash \<Rightarrow> dash res" where
  "prune_pos now s =
     (case prune_data now (position_time s) [positions s, desired_positions s] 0 of
        Inl (e, (n, ta, das)) \<Rightarrow>
          Inl (e, s\<lparr>position_time := ta, positions := das ! 0, desired_positions := das ! 1\<rparr>)
      | Inr (n, ta, das) \<Rightarrow>
          Inr (s\<lparr>position_time := ta, positions := das ! 0, desired_positions := das ! 1\<rparr>))"

definition prune_vel :: "real \<Rightarrow> dash \<Rightarrow> dash res" where
  "prune_vel now s =
     (case prune_data now (velocity_time s) [velocities s] 0 of
        Inl (e, (n, ta, das)) \<Rightarrow> Inl (e, s\<lparr>velocity_time := ta, velocities := das ! 0\<rparr>)
      | Inr (n, ta, das) \<Rightarrow> Inr (s\<lparr>velocity_time := ta, velocities := das ! 0\<rparr>))"

definition prune_step :: "real \<Rightarrow> dash \<Rightarrow> dash res" where
  "prune_step now s = then_do (then_do (prune_freq now s) (prune_pos now)) (prune_vel now)"

subsection \<open>Draining the queue\<close>

text \<open>
  What \<^verbatim>\<open>data_queue.get_nowait()\<close> does with an entry: it returns the unpickled value,
  or it raises (the entry cannot be de-serialized).
\<close>

datatype qitem = Item pyval | Corrupt

text \<open>
  The body of the \<^verbatim>\<open>try\<close> for one entry. The kind is compared with the three
  strings in the source's order; a value that is not one of them matches no branch.
\<close>

definition ingest_frequency :: "pyval \<Rightarrow> dash \<Rightarrow> dash res" where
  "ingest_frequency data s =
     (case unpack2 data of
        Inl e \<Rightarrow> Inl (e, s)
      | Inr (t, freq) \<Rightarrow>
          (let s1 = s\<lparr>time_data := time_data s @ [t]\<rparr>;
               s2 = s1\<lparr>freq_data := freq_data s1 @ [freq]\<rparr>
           in Inr s2))"

definition ingest_positions :: "pyval \<Rightarrow> dash \<Rightarrow> dash res" where
  "ingest_positions data s =
     (case unpack3 data of
        Inl e \<Rightarrow> Inl (e, s)
      | Inr (t, pos, desired_pos) \<Rightarrow>
          (let s1 = s\<lparr>position_time := position_time s @ [t]\<rparr>;
               s2 = s1\<lparr>positions := positions s1 @ [pos]\<rparr>;
               s3 = s2\<lparr>desired_positions := desired_positions s2 @ [desired_pos]\<rparr>
           in Inr s3))"

definition ingest_velocities :: "pyval \<Rightarrow> dash \<Rightarrow> dash res" where
  "ingest_velocities data s =
     (case unpack2 data of
        Inl e \<Rightarrow> Inl (e, s)
      | Inr (t, vel) \<Rightarrow>
          (let s1 = s\<lparr>velocity_time := velocity_time s @ [t]\<rparr>;
               s2 = s1\<lparr>velocities := velocities s1 @ [vel]\<rparr>
           in Inr s2))"

definition try_body :: "qitem \<Rightarrow> dash \<Rightarrow> dash res" where
  "try_body it s =
     (case it of
        Corrupt \<Rightarrow> Inl (QueueError, s)
      | Item v \<Rightarrow>
          (case unpack2 v of
             Inl e \<Rightarrow> Inl (e, s)
           | Inr (data_type, data) \<Rightarrow>
               if data_type = Str ''frequency'' then ingest_frequency data s
               else if data_type = Str ''positions'' then ingest_positions data s
               else if data_type = Str ''velocities'' then ingest_velocities data s
               else Inr s))"

text \<open>
  The handler \<^verbatim>\<open>except Exception as e: print(...)\<close>: the error is printed and the
  state is the one the \<^verbatim>\<open>try\<close> body left.
\<close>

definition except_print :: "dash res \<Rightarrow> dash" where
  "except_print r =
     (case r of
        Inl (e, s') \<Rightarrow> s'\<lparr>printed := printed s' @ [e]\<rparr>
      | Inr s' \<Rightarrow> s')"

text \<open>One turn of \<^verbatim>\<open>while not data_queue.empty()\<close>; after the handler the loop goes on.\<close>

definition drain_one :: "qitem \<Rightarrow> dash \<Rightarrow> dash" where
  "drain_one it s = except_print (try_body it s)"

text \<open>The loop over the entries that are in the queue during this tick.\<close>

fun drain :: "qitem list \<Rightarrow> dash \<Rightarrow> dash" where
  "drain [] s = s"
| "drain (it # q) s = drain q (drain_one it s)"

subsection \<open>Redrawing the charts\<close>

text \<open>\<^verbatim>\<open>rad2deg\<close>; the constant \<^verbatim>\<open>np.pi\<close> is the number \<open>\<pi>\<close>.\<close>

definition rad2deg :: "real \<Rightarrow> real" where
  "rad2deg rad = rad * 180 / pi"

text \<open>
  \<^verbatim>\<open>ax.plot(xs, ys)\<close> adds one line; matplotlib refuses x and y data of different
  lengths with a ValueError and adds nothing.
\<close>

definition plot :: "pyval list \<Rightarrow> pyval list \<Rightarrow> ax \<Rightarrow> exn + ax" where
  "plot xs ys a =
     (if length xs = length ys then Inr (a\<lparr>lines := lines a @ [(xs, ys)]\<rparr>)
      else Inl ValueError)"

text \<open>\<^verbatim>\<open>[pos[i] for pos in positions]\<close>: the first sample that cannot be indexed raises.\<close>

fun column :: "pyval list \<Rightarrow> nat \<Rightarrow> exn + pyval list" where
  "column [] i = Inr []"
| "column (p # ps) i =
     (case py_index p i of
        Inl e \<Rightarrow> Inl e
      | Inr x \<Rightarrow> (case column ps i of Inl e \<Rightarrow> Inl e | Inr xs \<Rightarrow> Inr (x # xs)))"

text \<open>
  The column of joint \<open>i\<close> as a list, empty when a sample cannot be indexed; it names the
  data of a plotted line.
\<close>

definition col_of :: "pyval list \<Rightarrow> nat \<Rightarrow> pyval list" where
  "col_of ps i = (case column ps i of Inl e \<Rightarrow> [] | Inr xs \<Rightarrow> xs)"

text \<open>
  The numbers of a list, for \<^verbatim>\<open>min\<close> and \<^verbatim>\<open>max\<close>. The statement
  \<^verbatim>\<open>y_min_rad = min(y_min_rad, min(vs))\<close> compares the values of \<open>vs\<close> with each other
  and then with a float, so it raises TypeError as soon as one of them is not a number,
  and ValueError when \<open>vs\<close> is empty.
\<close>

fun nums :: "pyval list \<Rightarrow> exn + real list" where
  "nums [] = Inr []"
| "nums (Num r # vs) = (case nums vs of Inl e \<Rightarrow> Inl e | Inr rs \<Rightarrow> Inr (r # rs))"
| "nums (v # vs) = Inl TypeError"

text \<open>
  The running limits start at \<^verbatim>\<open>float('inf')\<close> and \<^verbatim>\<open>float('-inf')\<close>, written
  \<open>None\<close> here.
\<close>

definition py_min :: "real option \<Rightarrow> pyval list \<Rightarrow> exn + real option" where
  "py_min acc vs =
     (case nums vs of
        Inl e \<Rightarrow> Inl e
      | Inr rs \<Rightarrow>
          (case rs of
             [] \<Rightarrow> Inl ValueError
           | r # rs' \<Rightarrow>
               (let m = fold min rs' r
                in Inr (Some (case acc of None \<Rightarrow> m | Some a \<Rightarrow> min a m)))))"

definition py_max :: "real option \<Rightarrow> pyval list \<Rightarrow> exn + real option" where
  "py_max acc vs =
     (case nums vs of
        Inl e \<Rightarrow> Inl e
      | Inr rs \<Rightarrow>
          (case rs of
             [] \<Rightarrow> Inl ValueError
           | r # rs' \<Rightarrow>
               (let m = fold max rs' r
                in Inr (Some (case acc of None \<Rightarrow> m | Some a \<Rightarrow> max a m)))))"

text \<open>
  What an axis range is after \<^verbatim>\<open>set_xlim(v0, v1)\<close> or \<^verbatim>\<open>set_ylim(v0, v1)\<close> on a
  linear axis. Matplotlib does not store the two arguments as they are: it passes them
  through the \<^verbatim>\<open>nonsingular\<close> of the axis locator, which widens a range that is empty
  or too narrow to draw, with the expander \<open>0.05\<close> and the relative width \<open>1e-15\<close>.
  A range around values below \<open>1e21\<close> times the smallest normal float, zero included,
  becomes \<open>(-0.05, 0.05)\<close>; any other range narrower than \<open>1e-15\<close> of its largest
  magnitude is widened by 5 percent at each end; every other range is kept. The limits
  are then put back in the order in which they were given.
\<close>

definition expander :: real where
  "expander = 5 / 100"

definition rel_tiny :: real where
  "rel_tiny = 1 / 10 ^ 15"

definition float_tiny :: real where
  "float_tiny = 1 / 2 ^ 1022"

definition nonsingular :: "real \<Rightarrow> real \<Rightarrow> real \<times> real" where
  "nonsingular v0 v1 =
     (let vmin = (if v1 < v0 then v1 else v0);
          vmax = (if v1 < v0 then v0 else v1);
          maxabsvalue = max \<bar>vmin\<bar> \<bar>vmax\<bar>
      in if maxabsvalue < (10 ^ 6 / rel_tiny) * float_tiny then (- expander, expander)
         else if vmax - vmin \<le> maxabsvalue * rel_tiny then
           (if vmax = 0 \<and> vmin = 0 then (- expander, expander)
            else (vmin - expander * \<bar>vmin\<bar>, vmax + expander * \<bar>vmax\<bar>))
         else (vmin, vmax))"

definition set_lim :: "real \<Rightarrow> real \<Rightarrow> real \<times> real" where
  "set_lim v0 v1 =
     (case nonsingular v0 v1 of
        (a, b) \<Rightarrow> if v1 < v0 then (max a b, min a b) else (min a b, max a b))"

text \<open>The frequency chart.\<close>

definition redraw_freq :: "real \<Rightarrow> dash \<Rightarrow> dash res" where
  "redraw_freq now s =
     (if time_data s \<noteq> [] \<and> freq_data s \<noteq> [] then
        (let a0 = cleared\<lparr>hlines := [50]\<rparr>
         in case plot (time_data s) (freq_data s) a0 of
              Inl e \<Rightarrow> Inl (e, s\<lparr>ax_freq := a0\<rparr>)
            | Inr a1 \<Rightarrow>
                Inr (s\<lparr>ax_freq := a1\<lparr>xlim := set_lim (now - max_time_window) now,
                                          ylim := set_lim 0 60\<rparr>\<rparr>))
      else Inr s)"

text \<open>
  The loop \<^verbatim>\<open>for i in range(num_joints)\<close> of the position chart, over the joints still
  to do. It carries the two running limits and the axes; when it raises, the axes keep
  the lines plotted so far.
\<close>

fun pos_joints :: "nat list \<Rightarrow> pyval list \<Rightarrow> pyval list \<Rightarrow> pyval list \<Rightarrow>
    real option \<times> real option \<times> ax \<Rightarrow> (exn \<times> ax) + (real option \<times> real option \<times> ax)" where
  "pos_joints [] pt ps ds st = Inr st"
| "pos_joints (i # js) pt ps ds (lo, hi, a) =
     (case column ps i of Inl e \<Rightarrow> Inl (e, a) | Inr act \<Rightarrow>
     (case column ds i of Inl e \<Rightarrow> Inl (e, a) | Inr des \<Rightarrow>
     (case py_min lo (act @ des) of Inl e \<Rightarrow> Inl (e, a) | Inr lo' \<Rightarrow>
     (case py_max hi (act @ des) of Inl e \<Rightarrow> Inl (e, a) | Inr hi' \<Rightarrow>
     (case plot pt act a of Inl e \<Rightarrow> Inl (e, a) | Inr a1 \<Rightarrow>
     (case plot pt des a1 of Inl e \<Rightarrow> Inl (e, a1) | Inr a2 \<Rightarrow>
        pos_joints js pt ps ds (lo', hi', a2)))))))"

text \<open>
  The position chart. Of the two \<^verbatim>\<open>set_ylim\<close> calls of a dual chart, the first
  raises the ValueError with which matplotlib refuses an infinite limit, after
  \<^verbatim>\<open>set_xlim\<close>.
\<close>

definition redraw_pos :: "real \<Rightarrow> dash \<Rightarrow> dash res" where
  "redraw_pos now s =
     (if position_time s \<noteq> [] \<and> positions s \<noteq> [] \<and> desired_positions s \<noteq> [] then
        (let s0 = s\<lparr>ax_pos := cleared, ax_pos_deg := (0, 1)\<rparr>
         in case pos_joints [0..<num_joints] (position_time s) (positions s)
                   (desired_positions s) (None, None, cleared) of
              Inl (e, a) \<Rightarrow> Inl (e, s0\<lparr>ax_pos := a\<rparr>)
            | Inr (lo, hi, a) \<Rightarrow>
                (let a1 = a\<lparr>xlim := set_lim (now - max_time_window) now\<rparr>
                 in case (lo, hi) of
                      (Some y_min_rad, Some y_max_rad) \<Rightarrow>
                        Inr (s0\<lparr>ax_pos := a1\<lparr>ylim := set_lim y_min_rad y_max_rad\<rparr>,
                                ax_pos_deg := set_lim (rad2deg y_min_rad) (rad2deg y_max_rad)\<rparr>)
                    | _ \<Rightarrow> Inl (ValueError, s0\<lparr>ax_pos := a1\<rparr>)))
      else Inr s)"

text \<open>The velocity chart: one line per joint.\<close>

fun vel_joints :: "nat list \<Rightarrow> pyval list \<Rightarrow> pyval list \<Rightarrow>
    real option \<times> real option \<times> ax \<Rightarrow> (exn \<times> ax) + (real option \<times> real option \<times> ax)" where
  "vel_joints [] vt vs st = Inr st"
| "vel_joints (i # js) vt vs (lo, hi, a) =
     (case column vs i of Inl e \<Rightarrow> Inl (e, a) | Inr jv \<Rightarrow>
     (case py_min lo jv of Inl e \<Rightarrow> Inl (e, a) | Inr lo' \<Rightarrow>
     (case py_max hi jv of Inl e \<Rightarrow> Inl (e, a) | Inr hi' \<Rightarrow>
     (case plot vt jv a of Inl e \<Rightarrow> Inl (e, a) | Inr a1 \<Rightarrow>
        vel_joints js vt vs (lo', hi', a1)))))"

definition redraw_vel :: "real \<Rightarrow> dash \<Rightarrow> dash res" where
  "redraw_vel now s =
     (if velocity_time s \<noteq> [] \<and> velocities s \<noteq> [] then
        (let s0 = s\<lparr>ax_vel := cleared, ax_vel_deg := (0, 1)\<rparr>
         in case vel_joints [0..<num_joints] (velocity_time s) (velocities s)
                   (None, None, cleared) of
              Inl (e, a) \<Rightarrow> Inl (e, s0\<lparr>ax_vel := a\<rparr>)
            | Inr (lo, hi, a) \<Rightarrow>
                (let a1 = a\<lparr>xlim := set_lim (now - max_time_window) now\<rparr>
                 in case (lo, hi) of
                      (Some y_min_rad, Some y_max_rad) \<Rightarrow>
                        Inr (s0\<lparr>ax_vel := a1\<lparr>ylim := set_lim y_min_rad y_max_rad\<rparr>,
                                ax_vel_deg := set_lim (rad2deg y_min_rad) (rad2deg y_max_rad)\<rparr>)
                    | _ \<Rightarrow> Inl (ValueError, s0\<lparr>ax_vel := a1\<rparr>)))
      else Inr s)"

definition redraw :: "real \<Rightarrow> dash \<Rightarrow> dash res" where
  "redraw now s = then_do (then_do (redraw_freq now s) (redraw_pos now)) (redraw_vel now)"

subsection \<open>One tick\<close>

text \<open>
  \<^verbatim>\<open>update(frame)\<close> at the time \<open>now\<close>, with \<open>q\<close> the entries the drain loop finds in
  the queue: the prune step, the drain, the three charts. An exception of the prune step
  or of a chart leaves \<^verbatim>\<open>update\<close>; the timer calls it again at the next tick, on the
  state it left.
\<close>

definition update :: "real \<Rightarrow> qitem list \<Rightarrow> dash \<Rightarrow> dash res" where
  "update now q s =
     then_do (then_do (prune_step now s) (\<lambda>s1. Inr (drain q s1))) (redraw now)"

fun run :: "(real \<times> qitem list) list \<Rightarrow> dash \<Rightarrow> dash" where
  "run [] s = s"
| "run ((now, q) # ticks) s = run ticks (after (update now q s))"

subsection \<open>The entries a producer sends\<close>

text \<open>
  The three well-formed entries of the ingress interface, as tagged tuples:
  \<^verbatim>\<open>("frequency", (t, hz))\<close>, \<^verbatim>\<open>("positions", (t, actual, desired))\<close> and
  \<^verbatim>\<open>("velocities", (t, rates))\<close>.
\<close>

definition frequency_sample :: "real \<Rightarrow> real \<Rightarrow> qitem" where
  "frequency_sample t hz = Item (Tup [Str ''frequency'', Tup [Num t, Num hz]])"

definition positions_sample :: "real \<Rightarrow> real list \<Rightarrow> real list \<Rightarrow> qitem" where
  "positions_sample t actual desired =
     Item (Tup [Str ''positions'', Tup [Num t, Tup (map Num actual), Tup (map Num desired)]])"

definition velocities_sample :: "real \<Rightarrow> real list \<Rightarrow> qitem" where
  "velocities_sample t rates = Item (Tup [Str ''velocities'', Tup [Num t, Tup (map Num rates)]])"

subsection \<open>Predicates on the buffers\<close>

text \<open>The parallel arrays of each series have the same length.\<close>

definition lens_ok :: "dash \<Rightarrow> bool" where
  "lens_ok s \<longleftrightarrow>
     length (time_data s) = length (freq_data s) \<and>
     length (position_time s) = length (positions s) \<and>
     length (positions s) = length (desired_positions s) \<and>
     length (velocity_time s) = length (velocities s)"

text \<open>A time array holds numbers only, in non-decreasing order.\<close>

definition nondecreasing :: "pyval list \<Rightarrow> bool" where
  "nondecreasing ts = (case nums ts of Inl e \<Rightarrow> False | Inr rs \<Rightarrow> sorted rs)"

text \<open>Every timestamp of a time array is a number \<open>t\<close> with \<open>now - t \<le> 1.0\<close>.\<close>

definition within_window :: "real \<Rightarrow> pyval list \<Rightarrow> bool" where
  "within_window now ts =
     (case nums ts of
        Inl e \<Rightarrow> False
      | Inr rs \<Rightarrow> list_all (\<lambda>t. now - t \<le> max_time_window) rs)"

text \<open>Two states hold the same seven buffers.\<close>

definition same_buffers :: "dash \<Rightarrow> dash \<Rightarrow> bool" where
  "same_buffers s s' \<longleftrightarrow>
     time_data s = time_data s' \<and> freq_data s = freq_data s' \<and>
     position_time s = position_time s' \<and> positions s = positions s' \<and>
     desired_positions s = desired_positions s' \<and>
     velocity_time s = velocity_time s' \<and> velocities s = velocities s'"

text \<open>
  The two ways a tick changes the buffers, written as functions of what is removed or
  added: \<open>evicted j1 j2 j3 s\<close> is \<open>s\<close> with the first \<open>j1\<close>, \<open>j2\<close> and \<open>j3\<close> entries popped
  from the frequency, position and velocity series, and \<open>extended d s\<close> is \<open>s\<close> with the
  buffers and the printed errors of \<open>d\<close> appended to its own.
\<close>

definition evicted :: "nat \<Rightarrow> nat \<Rightarrow> nat \<Rightarrow> dash \<Rightarrow> dash" where
  "evicted j1 j2 j3 s =
     s\<lparr>time_data := drop j1 (time_data s), freq_data := drop j1 (freq_data s),
       position_time := drop j2 (position_time s), positions := drop j2 (positions s),
       desired_positions := drop j2 (desired_positions s),
       velocity_time := drop j3 (velocity_time s), velocities := drop j3 (velocities s)\<rparr>"

definition extended :: "dash \<Rightarrow> dash \<Rightarrow> dash" where
  "extended d s =
     s\<lparr>time_data := time_data s @ time_data d, freq_data := freq_data s @ freq_data d,
       position_time := position_time s @ position_time d,
       positions := positions s @ positions d,
       desired_positions := desired_positions s @ desired_positions d,
       velocity_time := velocity_time s @ velocity_time d,
       velocities := velocities s @ velocities d,
       printed := printed s @ printed d\<rparr>"

subsection \<open>The order of a tick as the specification words it\<close>

text \<open>
  The specification describes the tick as ingest, then prune, then redraw. This is that
  reading, built from the same three steps, for comparison with \<^const>\<open>update\<close>.
\<close>

definition update_ingest_first :: "real \<Rightarrow> qitem list \<Rightarrow> dash \<Rightarrow> dash res" where
  "update_ingest_first now q s = then_do (prune_step now (drain q s)) (redraw now)"

section \<open>Properties\<close>

subsection \<open>The prune loop\<close>

lemma pop_each_nonempty:
  "\<forall>d \<in> set das. d \<noteq> [] \<Longrightarrow> pop_each das = Inr (map tl das)"
proof (induction das)
  case Nil
  show ?case by simp
next
  case (Cons d das)
  then obtain x d' where "d = x # d'" by (cases d) auto
  with Cons show ?case by simp
qed

text \<open>
  The loop returns as many data arrays as it was given, so the calls in \<^const>\<open>prune_freq\<close>,
  \<^const>\<open>prune_pos\<close> and \<^const>\<open>prune_vel\<close> read their arrays back within range.
\<close>

lemma pop_each_arity: "length (after (pop_each das)) = length das"
proof (induction das rule: pop_each.induct)
  case (3 x d ds)
  then show ?case by (cases "pop_each ds") (auto simp: after_def)
qed (simp_all add: after_def)

lemma prune_data_arity: "length (snd (snd (after (prune_data now ta das n)))) = length das"
proof (induction ta arbitrary: das n)
  case Nil
  show ?case by (simp add: after_def)
next
  case (Cons t ts)
  show ?case
  proof (cases "pop_each das")
    case (Inl x)
    with pop_each_arity [of das] show ?thesis
      by (cases x) (auto simp: after_def split: sum.splits)
  next
    case (Inr das')
    with pop_each_arity [of das] have "length das' = length das" by (simp add: after_def)
    with Inr Cons.IH [of das' "Suc n"] show ?thesis
      by (auto simp: after_def split: sum.splits)
  qed
qed

lemma prune_data_count:
  "case prune_data now ta das n of
     Inl (e, (k, ta', das')) \<Rightarrow> \<exists>j. k = n + j \<and> j + length ta' \<le> length ta
   | Inr (k, ta', das') \<Rightarrow> \<exists>j. k = n + j \<and> j \<le> length ta \<and> ta' = drop j ta"
proof (induction ta arbitrary: das n)
  case Nil
  show ?case by simp
next
  case (Cons t ts)
  show ?case
  proof (cases "py_rsub now t")
    case (Inl e)
    then show ?thesis by simp
  next
    case (Inr age)
    show ?thesis
    proof (cases "age > max_time_window")
      case False
      with Inr show ?thesis by simp
    next
      case True
      show ?thesis
      proof (cases "pop_each das")
        case (Inl x)
        with Inr True show ?thesis by (cases x) simp
      next
        case popped: (Inr das')
        have step: "prune_data now (t # ts) das n = prune_data now ts das' (Suc n)"
          using Inr True popped by simp
        have "case prune_data now ts das' (Suc n) of
            Inl (e, (k, ta', das')) \<Rightarrow> \<exists>j. k = n + j \<and> j + length ta' \<le> length (t # ts)
          | Inr (k, ta', das') \<Rightarrow> \<exists>j. k = n + j \<and> j \<le> length (t # ts) \<and> ta' = drop j (t # ts)"
        proof (cases "prune_data now ts das' (Suc n)")
          case (Inl x)
          obtain e k ta' das'' where x: "x = (e, (k, ta', das''))" by (cases x) auto
          with Cons.IH [where das=das' and n="Suc n"] Inl
          obtain j where "k = Suc n + j" "j + length ta' \<le> length ts" by auto
          then have "k = n + Suc j \<and> Suc j + length ta' \<le> length (t # ts)" by simp
          then show ?thesis using Inl x by auto
        next
          case (Inr y)
          obtain k ta' das'' where y: "y = (k, ta', das'')" by (cases y) auto
          with Cons.IH [where das=das' and n="Suc n"] Inr
          obtain j where "k = Suc n + j" "j \<le> length ts" "ta' = drop j ts" by auto
          then have "k = n + Suc j \<and> Suc j \<le> length (t # ts) \<and> ta' = drop (Suc j) (t # ts)"
            by simp
          then show ?thesis using Inr y by auto
        qed
        then show ?thesis by (simp only: step)
      qed
    qed
  qed
qed

lemma prune_data_even:
  assumes "\<forall>d \<in> set das. length d = length ta"
  shows "\<exists>j \<le> length ta. after (prune_data now ta das n) = (n + j, drop j ta, map (drop j) das)
           \<and> (\<forall>e x. prune_data now ta das n = Inl (e, x) \<longrightarrow> e = TypeError)"
  using assms
proof (induction ta arbitrary: das n)
  case Nil
  then have "map (drop 0) das = das" by simp
  then show ?case by (simp add: after_def)
next
  case (Cons t ts)
  have keep: "(n + 0, drop 0 (t # ts), map (drop 0) das) = (n, t # ts, das)" by simp
  show ?case
  proof (cases "py_rsub now t")
    case (Inl e)
    then have "e = TypeError" by (cases t) auto
    with Inl have "after (prune_data now (t # ts) das n) = (n, t # ts, das)"
      "\<forall>e x. prune_data now (t # ts) das n = Inl (e, x) \<longrightarrow> e = TypeError"
      by (simp_all add: after_def)
    with keep show ?thesis by (metis le0)
  next
    case (Inr age)
    show ?thesis
    proof (cases "age > max_time_window")
      case False
      with Inr have "after (prune_data now (t # ts) das n) = (n, t # ts, das)"
        "\<forall>e x. prune_data now (t # ts) das n = Inl (e, x) \<longrightarrow> e = TypeError"
        by (simp_all add: after_def)
      with keep show ?thesis by (metis le0)
    next
      case True
      from Cons.prems have ne: "\<forall>d \<in> set das. d \<noteq> []" by auto
      have popped: "pop_each das = Inr (map tl das)" by (rule pop_each_nonempty [OF ne])
      have step: "prune_data now (t # ts) das n = prune_data now ts (map tl das) (Suc n)"
        using Inr True popped by simp
      from Cons.prems have "\<forall>d \<in> set (map tl das). length d = length ts" by auto
      from Cons.IH [OF this, of "Suc n"] obtain j where j: "j \<le> length ts"
        "after (prune_data now ts (map tl das) (Suc n)) = (Suc n + j, drop j ts, map (drop j) (map tl das))"
        "\<forall>e x. prune_data now ts (map tl das) (Suc n) = Inl (e, x) \<longrightarrow> e = TypeError"
        by blast
      have "map (drop j) (map tl das) = map (drop (Suc j)) das"
        by (simp add: drop_Suc)
      with j step have "Suc j \<le> length (t # ts)"
        "after (prune_data now (t # ts) das n) = (n + Suc j, drop (Suc j) (t # ts), map (drop (Suc j)) das)"
        "\<forall>e x. prune_data now (t # ts) das n = Inl (e, x) \<longrightarrow> e = TypeError"
        by simp_all
      then show ?thesis by blast
    qed
  qed
qed

subsection \<open>Numeric, ordered time arrays\<close>

lemma map_Num_eq [simp]: "map Num xs = map Num ys \<longleftrightarrow> xs = ys"
  by (rule inj_map_eq_map) (simp add: inj_def)

lemma nums_map_Num [simp]: "nums (map Num rs) = Inr rs"
  by (induction rs) simp_all

lemma nums_Inr_D: "nums ts = Inr rs \<Longrightarrow> ts = map Num rs"
proof (induction ts arbitrary: rs)
  case Nil
  then show ?case by simp
next
  case (Cons v vs)
  show ?case
  proof (cases v)
    case (Num r)
    with Cons.prems obtain rs' where "nums vs = Inr rs'" "rs = r # rs'"
      by (auto split: sum.splits)
    with Cons.IH [of rs'] Num show ?thesis by simp
  qed (use Cons.prems in auto)
qed

lemma nums_Inr_iff: "nums ts = Inr rs \<longleftrightarrow> ts = map Num rs"
  using nums_Inr_D by auto

lemma nondecreasing_iff: "nondecreasing ts \<longleftrightarrow> (\<exists>rs. ts = map Num rs \<and> sorted rs)"
  by (auto simp: nondecreasing_def nums_Inr_iff split: sum.splits)

lemma within_window_iff:
  "within_window now ts \<longleftrightarrow> (\<exists>rs. ts = map Num rs \<and> (\<forall>t \<in> set rs. now - t \<le> max_time_window))"
  by (auto simp: within_window_def nums_Inr_iff list_all_iff split: sum.splits)

lemma nondecreasing_append: "nondecreasing (xs @ ys) \<Longrightarrow> nondecreasing xs"
proof -
  assume "nondecreasing (xs @ ys)"
  then obtain rs where rs: "xs @ ys = map Num rs" "sorted rs"
    by (auto simp: nondecreasing_iff)
  then have "xs = map Num (take (length xs) rs)"
    by (metis append_eq_conv_conj take_map)
  moreover have "sorted (take (length xs) rs)" using rs(2) by (rule sorted_wrt_take)
  ultimately show ?thesis unfolding nondecreasing_iff by blast
qed

lemma nondecreasing_drop: "nondecreasing xs \<Longrightarrow> nondecreasing (drop j xs)"
proof -
  assume "nondecreasing xs"
  then obtain rs where rs: "xs = map Num rs" "sorted rs"
    by (auto simp: nondecreasing_iff)
  then have "drop j xs = map Num (drop j rs)" by (simp add: drop_map)
  moreover have "sorted (drop j rs)" using rs(2) by (rule sorted_wrt_drop)
  ultimately show ?thesis unfolding nondecreasing_iff by blast
qed

lemma nondecreasing_drop_append:
  assumes "nondecreasing (xs @ ys)" and "j \<le> length xs"
  shows "nondecreasing (drop j xs @ ys)"
proof -
  have "drop j xs @ ys = drop j (xs @ ys)" using assms(2) by simp
  with nondecreasing_drop [OF assms(1), of j] show ?thesis by simp
qed

text \<open>On a sorted numeric time array with data arrays of the same length the loop cannot raise.\<close>

lemma prune_data_sorted:
  assumes "sorted rs" and "\<forall>d \<in> set das. length d = length rs"
  shows "\<exists>j \<le> length rs. prune_data now (map Num rs) das n
            = Inr (n + j, map Num (drop j rs), map (drop j) das)
           \<and> (\<forall>t \<in> set (drop j rs). now - t \<le> max_time_window)"
  using assms
proof (induction rs arbitrary: das n)
  case Nil
  then show ?case by simp
next
  case (Cons r rs)
  show ?case
  proof (cases "now - r > max_time_window")
    case False
    from Cons.prems(1) have "\<forall>t \<in> set (r # rs). r \<le> t" by auto
    with False have "\<forall>t \<in> set (drop 0 (r # rs)). now - t \<le> max_time_window" by fastforce
    moreover have "prune_data now (map Num (r # rs)) das n
        = Inr (n + 0, map Num (drop 0 (r # rs)), map (drop 0) das)"
      using False by simp
    ultimately show ?thesis by (metis le0)
  next
    case True
    from Cons.prems have ne: "\<forall>d \<in> set das. d \<noteq> []" by auto
    have popped: "pop_each das = Inr (map tl das)" by (rule pop_each_nonempty [OF ne])
    have step: "prune_data now (map Num (r # rs)) das n = prune_data now (map Num rs) (map tl das) (Suc n)"
      using True popped by simp
    from Cons.prems have "sorted rs" "\<forall>d \<in> set (map tl das). length d = length rs" by auto
    from Cons.IH [OF this, of "Suc n"] obtain j where j: "j \<le> length rs"
      "prune_data now (map Num rs) (map tl das) (Suc n)
          = Inr (Suc n + j, map Num (drop j rs), map (drop j) (map tl das))"
      "\<forall>t \<in> set (drop j rs). now - t \<le> max_time_window"
      by blast
    have "map (drop j) (map tl das) = map (drop (Suc j)) das"
      by (simp add: drop_Suc)
    with j step have "Suc j \<le> length (r # rs)"
      "prune_data now (map Num (r # rs)) das n
          = Inr (n + Suc j, map Num (drop (Suc j) (r # rs)), map (drop (Suc j)) das)"
      "\<forall>t \<in> set (drop (Suc j) (r # rs)). now - t \<le> max_time_window"
      by simp_all
    then show ?thesis by blast
  qed
qed

subsection \<open>The prune step evicts from the front\<close>

lemma after_simps [simp]: "after (Inl (e, s)) = s" "after (Inr s) = s"
  by (simp_all add: after_def)

lemma then_do_simps [simp]: "then_do (Inl x) f = Inl x" "then_do (Inr s) f = f s"
  by (simp_all add: then_do_def)

lemma evicted_zero [simp]: "evicted 0 0 0 s = s"
  by (simp add: evicted_def)

lemma prune_freq_after:
  "after (prune_freq now s) =
     (case after (prune_data now (time_data s) [freq_data s] 0) of
        (n, ta, das) \<Rightarrow> s\<lparr>time_data := ta, freq_data := das ! 0\<rparr>)"
  by (simp add: prune_freq_def split: sum.splits prod.splits)

lemma prune_pos_after:
  "after (prune_pos now s) =
     (case after (prune_data now (position_time s) [positions s, desired_positions s] 0) of
        (n, ta, das) \<Rightarrow> s\<lparr>position_time := ta, positions := das ! 0, desired_positions := das ! 1\<rparr>)"
  by (simp add: prune_pos_def split: sum.splits prod.splits)

lemma prune_vel_after:
  "after (prune_vel now s) =
     (case after (prune_data now (velocity_time s) [velocities s] 0) of
        (n, ta, das) \<Rightarrow> s\<lparr>velocity_time := ta, velocities := das ! 0\<rparr>)"
  by (simp add: prune_vel_def split: sum.splits prod.splits)

lemma prune_freq_evicts:
  assumes "lens_ok s"
  shows "\<exists>j. after (prune_freq now s) = evicted j 0 0 s"
proof -
  from assms have "\<forall>d \<in> set [freq_data s]. length d = length (time_data s)"
    by (simp add: lens_ok_def)
  from prune_data_even [OF this, of now 0] obtain j where
    "after (prune_data now (time_data s) [freq_data s] 0)
       = (0 + j, drop j (time_data s), map (drop j) [freq_data s])" by blast
  then have "after (prune_freq now s) = evicted j 0 0 s"
    by (simp add: prune_freq_after evicted_def)
  then show ?thesis ..
qed

lemma prune_pos_evicts:
  assumes "lens_ok s"
  shows "\<exists>j. after (prune_pos now s) = evicted 0 j 0 s"
proof -
  from assms have "\<forall>d \<in> set [positions s, desired_positions s]. length d = length (position_time s)"
    by (simp add: lens_ok_def)
  from prune_data_even [OF this, of now 0] obtain j where
    "after (prune_data now (position_time s) [positions s, desired_positions s] 0)
       = (0 + j, drop j (position_time s), map (drop j) [positions s, desired_positions s])" by blast
  then have "after (prune_pos now s) = evicted 0 j 0 s"
    by (simp add: prune_pos_after evicted_def)
  then show ?thesis ..
qed

lemma prune_vel_evicts:
  assumes "lens_ok s"
  shows "\<exists>j. after (prune_vel now s) = evicted 0 0 j s"
proof -
  from assms have "\<forall>d \<in> set [velocities s]. length d = length (velocity_time s)"
    by (simp add: lens_ok_def)
  from prune_data_even [OF this, of now 0] obtain j where
    "after (prune_data now (velocity_time s) [velocities s] 0)
       = (0 + j, drop j (velocity_time s), map (drop j) [velocities s])" by blast
  then have "after (prune_vel now s) = evicted 0 0 j s"
    by (simp add: prune_vel_after evicted_def)
  then show ?thesis ..
qed

lemma lens_ok_evicted: "lens_ok s \<Longrightarrow> lens_ok (evicted j1 j2 j3 s)"
  by (simp add: lens_ok_def evicted_def)

lemma evicted_evicted:
  "evicted i1 i2 i3 (evicted j1 j2 j3 s) = evicted (j1 + i1) (j2 + i2) (j3 + i3) s"
  by (simp add: evicted_def add.commute)

lemma prune_step_evicts:
  assumes "lens_ok s"
  shows "\<exists>j1 j2 j3. after (prune_step now s) = evicted j1 j2 j3 s"
proof -
  obtain j1 where f: "after (prune_freq now s) = evicted j1 0 0 s"
    using prune_freq_evicts [OF assms] by blast
  show ?thesis
  proof (cases "prune_freq now s")
    case (Inl x)
    with f have "after (prune_step now s) = evicted j1 0 0 s"
      by (simp add: prune_step_def)
    then show ?thesis by blast
  next
    case s1: (Inr s1)
    with f have s1_eq: "s1 = evicted j1 0 0 s" by simp
    then have ok1: "lens_ok s1" using assms by (simp add: lens_ok_evicted)
    obtain j2 where p: "after (prune_pos now s1) = evicted 0 j2 0 s1"
      using prune_pos_evicts [OF ok1] by blast
    show ?thesis
    proof (cases "prune_pos now s1")
      case (Inl x)
      with p s1 s1_eq have "after (prune_step now s) = evicted j1 j2 0 s"
        by (simp add: prune_step_def evicted_evicted)
      then show ?thesis by blast
    next
      case s2: (Inr s2)
      with p s1_eq have s2_eq: "s2 = evicted j1 j2 0 s" by (simp add: evicted_evicted)
      then have ok2: "lens_ok s2" using assms by (simp add: lens_ok_evicted)
      obtain j3 where v: "after (prune_vel now s2) = evicted 0 0 j3 s2"
        using prune_vel_evicts [OF ok2] by blast
      with s1 s2 s2_eq have "after (prune_step now s) = evicted j1 j2 j3 s"
        by (simp add: prune_step_def evicted_evicted)
      then show ?thesis by blast
    qed
  qed
qed

lemma prune_freq_sorted:
  assumes "lens_ok s" and "nondecreasing (time_data s)"
  shows "\<exists>j \<le> length (time_data s). prune_freq now s = Inr (evicted j 0 0 s)
           \<and> within_window now (drop j (time_data s))"
proof -
  from assms(2) obtain rs where rs: "time_data s = map Num rs" "sorted rs"
    by (auto simp: nondecreasing_iff)
  with assms(1) have "\<forall>d \<in> set [freq_data s]. length d = length rs"
    by (simp add: lens_ok_def)
  from prune_data_sorted [OF rs(2) this, of now 0] obtain j where j: "j \<le> length rs"
    "prune_data now (map Num rs) [freq_data s] 0
       = Inr (0 + j, map Num (drop j rs), map (drop j) [freq_data s])"
    "\<forall>t \<in> set (drop j rs). now - t \<le> max_time_window" by blast
  from j(2) rs(1) have "prune_freq now s = Inr (evicted j 0 0 s)"
    by (simp add: prune_freq_def evicted_def drop_map)
  moreover from j(3) rs(1) have "within_window now (drop j (time_data s))"
    unfolding within_window_iff by (auto simp: drop_map)
  moreover from j(1) rs(1) have "j \<le> length (time_data s)" by simp
  ultimately show ?thesis by blast
qed

lemma prune_pos_sorted:
  assumes "lens_ok s" and "nondecreasing (position_time s)"
  shows "\<exists>j \<le> length (position_time s). prune_pos now s = Inr (evicted 0 j 0 s)
           \<and> within_window now (drop j (position_time s))"
proof -
  from assms(2) obtain rs where rs: "position_time s = map Num rs" "sorted rs"
    by (auto simp: nondecreasing_iff)
  with assms(1) have "\<forall>d \<in> set [positions s, desired_positions s]. length d = length rs"
    by (simp add: lens_ok_def)
  from prune_data_sorted [OF rs(2) this, of now 0] obtain j where j: "j \<le> length rs"
    "prune_data now (map Num rs) [positions s, desired_positions s] 0
       = Inr (0 + j, map Num (drop j rs), map (drop j) [positions s, desired_positions s])"
    "\<forall>t \<in> set (drop j rs). now - t \<le> max_time_window" by blast
  from j(2) rs(1) have "prune_pos now s = Inr (evicted 0 j 0 s)"
    by (simp add: prune_pos_def evicted_def drop_map)
  moreover from j(3) rs(1) have "within_window now (drop j (position_time s))"
    unfolding within_window_iff by (auto simp: drop_map)
  moreover from j(1) rs(1) have "j \<le> length (position_time s)" by simp
  ultimately show ?thesis by blast
qed

lemma prune_vel_sorted:
  assumes "lens_ok s" and "nondecreasing (velocity_time s)"
  shows "\<exists>j \<le> length (velocity_time s). prune_vel now s = Inr (evicted 0 0 j s)
           \<and> within_window now (drop j (velocity_time s))"
proof -
  from assms(2) obtain rs where rs: "velocity_time s = map Num rs" "sorted rs"
    by (auto simp: nondecreasing_iff)
  with assms(1) have "\<forall>d \<in> set [velocities s]. length d = length rs"
    by (simp add: lens_ok_def)
  from prune_data_sorted [OF rs(2) this, of now 0] obtain j where j: "j \<le> length rs"
    "prune_data now (map Num rs) [velocities s] 0
       = Inr (0 + j, map Num (drop j rs), map (drop j) [velocities s])"
    "\<forall>t \<in> set (drop j rs). now - t \<le> max_time_window" by blast
  from j(2) rs(1) have "prune_vel now s = Inr (evicted 0 0 j s)"
    by (simp add: prune_vel_def evicted_def drop_map)
  moreover from j(3) rs(1) have "within_window now (drop j (velocity_time s))"
    unfolding within_window_iff by (auto simp: drop_map)
  moreover from j(1) rs(1) have "j \<le> length (velocity_time s)" by simp
  ultimately show ?thesis by blast
qed

lemma evicted_fields [simp]:
  "time_data (evicted j1 j2 j3 s) = drop j1 (time_data s)"
  "freq_data (evicted j1 j2 j3 s) = drop j1 (freq_data s)"
  "position_time (evicted j1 j2 j3 s) = drop j2 (position_time s)"
  "positions (evicted j1 j2 j3 s) = drop j2 (positions s)"
  "desired_positions (evicted j1 j2 j3 s) = drop j2 (desired_positions s)"
  "velocity_time (evicted j1 j2 j3 s) = drop j3 (velocity_time s)"
  "velocities (evicted j1 j2 j3 s) = drop j3 (velocities s)"
  "printed (evicted j1 j2 j3 s) = printed s"
  "ax_freq (evicted j1 j2 j3 s) = ax_freq s"
  "ax_pos (evicted j1 j2 j3 s) = ax_pos s"
  "ax_pos_deg (evicted j1 j2 j3 s) = ax_pos_deg s"
  "ax_vel (evicted j1 j2 j3 s) = ax_vel s"
  "ax_vel_deg (evicted j1 j2 j3 s) = ax_vel_deg s"
  by (simp_all add: evicted_def)

lemma prune_step_sorted:
  assumes ok: "lens_ok s"
    and f: "nondecreasing (time_data s)"
    and p: "nondecreasing (position_time s)"
    and v: "nondecreasing (velocity_time s)"
  shows "\<exists>j1 j2 j3. j1 \<le> length (time_data s) \<and> j2 \<le> length (position_time s)
           \<and> j3 \<le> length (velocity_time s)
           \<and> prune_step now s = Inr (evicted j1 j2 j3 s)
           \<and> within_window now (drop j1 (time_data s))
           \<and> within_window now (drop j2 (position_time s))
           \<and> within_window now (drop j3 (velocity_time s))"
proof -
  obtain j1 where j1: "j1 \<le> length (time_data s)" "prune_freq now s = Inr (evicted j1 0 0 s)"
    "within_window now (drop j1 (time_data s))"
    using prune_freq_sorted [OF ok f] by blast
  let ?s1 = "evicted j1 0 0 s"
  have ok1: "lens_ok ?s1" using ok by (rule lens_ok_evicted)
  have "nondecreasing (position_time ?s1)" using p by simp
  from prune_pos_sorted [OF ok1 this, of now]
  obtain j2 where j2: "j2 \<le> length (position_time s)"
    "prune_pos now ?s1 = Inr (evicted j1 j2 0 s)"
    "within_window now (drop j2 (position_time s))"
    by (auto simp: evicted_evicted)
  let ?s2 = "evicted j1 j2 0 s"
  have ok2: "lens_ok ?s2" using ok by (rule lens_ok_evicted)
  have "nondecreasing (velocity_time ?s2)" using v by simp
  from prune_vel_sorted [OF ok2 this, of now]
  obtain j3 where j3: "j3 \<le> length (velocity_time s)"
    "prune_vel now ?s2 = Inr (evicted j1 j2 j3 s)"
    "within_window now (drop j3 (velocity_time s))"
    by (auto simp: evicted_evicted)
  have "prune_step now s = Inr (evicted j1 j2 j3 s)"
    using j1(2) j2(2) j3(2) by (simp add: prune_step_def)
  with j1 j2 j3 show ?thesis by blast
qed

subsection \<open>The drain appends\<close>

lemma extended_fields [simp]:
  "time_data (extended d s) = time_data s @ time_data d"
  "freq_data (extended d s) = freq_data s @ freq_data d"
  "position_time (extended d s) = position_time s @ position_time d"
  "positions (extended d s) = positions s @ positions d"
  "desired_positions (extended d s) = desired_positions s @ desired_positions d"
  "velocity_time (extended d s) = velocity_time s @ velocity_time d"
  "velocities (extended d s) = velocities s @ velocities d"
  "printed (extended d s) = printed s @ printed d"
  "ax_freq (extended d s) = ax_freq s"
  "ax_pos (extended d s) = ax_pos s"
  "ax_pos_deg (extended d s) = ax_pos_deg s"
  "ax_vel (extended d s) = ax_vel s"
  "ax_vel_deg (extended d s) = ax_vel_deg s"
  by (simp_all add: extended_def)

lemma extended_init [simp]: "extended init_dash s = s"
  by (simp add: extended_def init_dash_def)

lemma extended_extended: "extended d2 (extended d1 s) = extended (extended d2 d1) s"
  by (simp add: extended_def)

lemma lens_ok_extended: "lens_ok d \<Longrightarrow> lens_ok s \<Longrightarrow> lens_ok (extended d s)"
  by (simp add: lens_ok_def)

lemma lens_ok_init [simp]: "lens_ok init_dash"
  by (simp add: lens_ok_def init_dash_def)

lemma ingest_frequency_raise: "ingest_frequency data s = Inl (e, s') \<Longrightarrow> s' = s"
  by (auto simp: ingest_frequency_def split: sum.splits)

lemma ingest_positions_raise: "ingest_positions data s = Inl (e, s') \<Longrightarrow> s' = s"
  by (auto simp: ingest_positions_def split: sum.splits)

lemma ingest_velocities_raise: "ingest_velocities data s = Inl (e, s') \<Longrightarrow> s' = s"
  by (auto simp: ingest_velocities_def split: sum.splits)

lemma try_body_raise: "try_body it s = Inl (e, s') \<Longrightarrow> s' = s"
  by (auto simp: try_body_def split: qitem.splits sum.splits if_splits
      dest: ingest_frequency_raise ingest_positions_raise ingest_velocities_raise)

lemma ingest_frequency_done:
  "ingest_frequency data s = Inr s' \<Longrightarrow>
     \<exists>t freq. s' = s\<lparr>time_data := time_data s @ [t], freq_data := freq_data s @ [freq]\<rparr>"
  by (cases "unpack2 data") (auto simp: ingest_frequency_def)

lemma ingest_positions_done:
  "ingest_positions data s = Inr s' \<Longrightarrow>
     \<exists>t pos desired_pos.
        s' = s\<lparr>position_time := position_time s @ [t], positions := positions s @ [pos],
               desired_positions := desired_positions s @ [desired_pos]\<rparr>"
  by (cases "unpack3 data") (auto simp: ingest_positions_def)

lemma ingest_velocities_done:
  "ingest_velocities data s = Inr s' \<Longrightarrow>
     \<exists>t vel. s' = s\<lparr>velocity_time := velocity_time s @ [t], velocities := velocities s @ [vel]\<rparr>"
  by (cases "unpack2 data") (auto simp: ingest_velocities_def)

lemma ingest_frequency_extends:
  "\<exists>d. lens_ok d \<and> (\<forall>s. except_print (ingest_frequency data s) = extended d s)"
proof (cases "unpack2 data")
  case (Inl e)
  let ?d = "init_dash\<lparr>printed := [e]\<rparr>"
  have "lens_ok ?d" by (simp add: lens_ok_def init_dash_def)
  moreover have "\<forall>s. except_print (ingest_frequency data s) = extended ?d s"
    using Inl by (simp add: except_print_def ingest_frequency_def extended_def init_dash_def)
  ultimately show ?thesis by blast
next
  case (Inr x)
  obtain t f where x: "x = (t, f)" by (cases x)
  let ?d = "init_dash\<lparr>time_data := [t], freq_data := [f]\<rparr>"
  have "lens_ok ?d" by (simp add: lens_ok_def init_dash_def)
  moreover have "\<forall>s. except_print (ingest_frequency data s) = extended ?d s"
    using Inr x by (simp add: except_print_def ingest_frequency_def extended_def init_dash_def)
  ultimately show ?thesis by blast
qed

lemma ingest_positions_extends:
  "\<exists>d. lens_ok d \<and> (\<forall>s. except_print (ingest_positions data s) = extended d s)"
proof (cases "unpack3 data")
  case (Inl e)
  let ?d = "init_dash\<lparr>printed := [e]\<rparr>"
  have "lens_ok ?d" by (simp add: lens_ok_def init_dash_def)
  moreover have "\<forall>s. except_print (ingest_positions data s) = extended ?d s"
    using Inl by (simp add: except_print_def ingest_positions_def extended_def init_dash_def)
  ultimately show ?thesis by blast
next
  case (Inr x)
  obtain t p dp where x: "x = (t, p, dp)" by (cases x)
  let ?d = "init_dash\<lparr>position_time := [t], positions := [p], desired_positions := [dp]\<rparr>"
  have "lens_ok ?d" by (simp add: lens_ok_def init_dash_def)
  moreover have "\<forall>s. except_print (ingest_positions data s) = extended ?d s"
    using Inr x by (simp add: except_print_def ingest_positions_def extended_def init_dash_def)
  ultimately show ?thesis by blast
qed

lemma ingest_velocities_extends:
  "\<exists>d. lens_ok d \<and> (\<forall>s. except_print (ingest_velocities data s) = extended d s)"
proof (cases "unpack2 data")
  case (Inl e)
  let ?d = "init_dash\<lparr>printed := [e]\<rparr>"
  have "lens_ok ?d" by (simp add: lens_ok_def init_dash_def)
  moreover have "\<forall>s. except_print (ingest_velocities data s) = extended ?d s"
    using Inl by (simp add: except_print_def ingest_velocities_def extended_def init_dash_def)
  ultimately show ?thesis by blast
next
  case (Inr x)
  obtain t v where x: "x = (t, v)" by (cases x)
  let ?d = "init_dash\<lparr>velocity_time := [t], velocities := [v]\<rparr>"
  have "lens_ok ?d" by (simp add: lens_ok_def init_dash_def)
  moreover have "\<forall>s. except_print (ingest_velocities data s) = extended ?d s"
    using Inr x by (simp add: except_print_def ingest_velocities_def extended_def init_dash_def)
  ultimately show ?thesis by blast
qed

lemma except_print_raise_extends:
  "\<exists>d. lens_ok d \<and> (\<forall>s. except_print (Inl (e, s)) = extended d s)"
proof -
  let ?d = "init_dash\<lparr>printed := [e]\<rparr>"
  have "lens_ok ?d" by (simp add: lens_ok_def init_dash_def)
  moreover have "\<forall>s. except_print (Inl (e, s)) = extended ?d s"
    by (simp add: except_print_def extended_def init_dash_def)
  ultimately show ?thesis by blast
qed

lemma except_print_skip_extends:
  "\<exists>d. lens_ok d \<and> (\<forall>s. except_print (Inr s) = extended d s)"
proof -
  have "\<forall>s. except_print (Inr s) = extended init_dash s"
    by (simp add: except_print_def)
  with lens_ok_init show ?thesis by blast
qed

lemma drain_one_extends: "\<exists>d. lens_ok d \<and> (\<forall>s. drain_one it s = extended d s)"
proof (cases it)
  case Corrupt
  then show ?thesis
    using except_print_raise_extends [of QueueError] by (simp add: drain_one_def try_body_def)
next
  case (Item v)
  show ?thesis
  proof (cases "unpack2 v")
    case (Inl e)
    with Item show ?thesis
      using except_print_raise_extends [of e] by (simp add: drain_one_def try_body_def)
  next
    case (Inr x)
    obtain data_type data where x: "x = (data_type, data)" by (cases x)
    consider (f) "data_type = Str ''frequency''" | (p) "data_type = Str ''positions''"
      | (v) "data_type = Str ''velocities''"
      | (u) "data_type \<noteq> Str ''frequency''" "data_type \<noteq> Str ''positions''"
            "data_type \<noteq> Str ''velocities''"
      by blast
    then show ?thesis
    proof cases
      case f
      with Item Inr x show ?thesis
        using ingest_frequency_extends [of data] by (simp add: drain_one_def try_body_def)
    next
      case p
      with Item Inr x show ?thesis
        using ingest_positions_extends [of data] by (simp add: drain_one_def try_body_def)
    next
      case v
      with Item Inr x show ?thesis
        using ingest_velocities_extends [of data] by (simp add: drain_one_def try_body_def)
    next
      case u
      with Item Inr x show ?thesis
        using except_print_skip_extends by (simp add: drain_one_def try_body_def)
    qed
  qed
qed

lemma drain_extends: "\<exists>d. lens_ok d \<and> (\<forall>s. drain q s = extended d s)"
proof (induction q)
  case Nil
  have "\<forall>s. drain [] s = extended init_dash s" by simp
  with lens_ok_init show ?case by blast
next
  case (Cons it q)
  obtain d1 where d1: "lens_ok d1" "\<forall>s. drain_one it s = extended d1 s"
    using drain_one_extends by blast
  from Cons obtain d2 where d2: "lens_ok d2" "\<forall>s. drain q s = extended d2 s" by blast
  have "lens_ok (extended d2 d1)" using d1(1) d2(1) by (rule lens_ok_extended [rotated])
  moreover have "\<forall>s. drain (it # q) s = extended (extended d2 d1) s"
    using d1(2) d2(2) by (simp add: extended_extended)
  ultimately show ?case by blast
qed

lemma drain_append: "drain (q1 @ q2) s = drain q2 (drain q1 s)"
  by (induction q1 arbitrary: s) simp_all

lemma redraw_freq_frame:
  "after (redraw_freq now s) = s\<lparr>ax_freq := ax_freq (after (redraw_freq now s))\<rparr>"
  by (simp add: redraw_freq_def Let_def split: sum.splits)

lemma redraw_pos_frame:
  "after (redraw_pos now s) = s\<lparr>ax_pos := ax_pos (after (redraw_pos now s)),
      ax_pos_deg := ax_pos_deg (after (redraw_pos now s))\<rparr>"
  by (simp add: redraw_pos_def Let_def split: sum.splits prod.splits option.splits)

lemma redraw_vel_frame:
  "after (redraw_vel now s) = s\<lparr>ax_vel := ax_vel (after (redraw_vel now s)),
      ax_vel_deg := ax_vel_deg (after (redraw_vel now s))\<rparr>"
  by (simp add: redraw_vel_def Let_def split: sum.splits prod.splits option.splits)

subsection \<open>Redrawing leaves the buffers alone\<close>

lemma redraw_freq_keeps [simp]:
  "time_data (after (redraw_freq now s)) = time_data s"
  "freq_data (after (redraw_freq now s)) = freq_data s"
  "position_time (after (redraw_freq now s)) = position_time s"
  "positions (after (redraw_freq now s)) = positions s"
  "desired_positions (after (redraw_freq now s)) = desired_positions s"
  "velocity_time (after (redraw_freq now s)) = velocity_time s"
  "velocities (after (redraw_freq now s)) = velocities s"
  "printed (after (redraw_freq now s)) = printed s"
  "ax_pos (after (redraw_freq now s)) = ax_pos s"
  "ax_pos_deg (after (redraw_freq now s)) = ax_pos_deg s"
  "ax_vel (after (redraw_freq now s)) = ax_vel s"
  "ax_vel_deg (after (redraw_freq now s)) = ax_vel_deg s"
  by (subst redraw_freq_frame, simp)+

lemma redraw_pos_keeps [simp]:
  "time_data (after (redraw_pos now s)) = time_data s"
  "freq_data (after (redraw_pos now s)) = freq_data s"
  "position_time (after (redraw_pos now s)) = position_time s"
  "positions (after (redraw_pos now s)) = positions s"
  "desired_positions (after (redraw_pos now s)) = desired_positions s"
  "velocity_time (after (redraw_pos now s)) = velocity_time s"
  "velocities (after (redraw_pos now s)) = velocities s"
  "printed (after (redraw_pos now s)) = printed s"
  "ax_freq (after (redraw_pos now s)) = ax_freq s"
  "ax_vel (after (redraw_pos now s)) = ax_vel s"
  "ax_vel_deg (after (redraw_pos now s)) = ax_vel_deg s"
  by (subst redraw_pos_frame, simp)+

lemma redraw_vel_keeps [simp]:
  "time_data (after (redraw_vel now s)) = time_data s"
  "freq_data (after (redraw_vel now s)) = freq_data s"
  "position_time (after (redraw_vel now s)) = position_time s"
  "positions (after (redraw_vel now s)) = positions s"
  "desired_positions (after (redraw_vel now s)) = desired_positions s"
  "velocity_time (after (redraw_vel now s)) = velocity_time s"
  "velocities (after (redraw_vel now s)) = velocities s"
  "printed (after (redraw_vel now s)) = printed s"
  "ax_freq (after (redraw_vel now s)) = ax_freq s"
  "ax_pos (after (redraw_vel now s)) = ax_pos s"
  "ax_pos_deg (after (redraw_vel now s)) = ax_pos_deg s"
  by (subst redraw_vel_frame, simp)+

lemma after_redraw:
  "after (redraw now s) = after (redraw_vel now (after (redraw_pos now (after (redraw_freq now s)))))
   \<or> after (redraw now s) = after (redraw_pos now (after (redraw_freq now s)))
   \<or> after (redraw now s) = after (redraw_freq now s)"
  by (auto simp: redraw_def then_do_def split: sum.splits)

lemma redraw_keeps [simp]:
  "time_data (after (redraw now s)) = time_data s"
  "freq_data (after (redraw now s)) = freq_data s"
  "position_time (after (redraw now s)) = position_time s"
  "positions (after (redraw now s)) = positions s"
  "desired_positions (after (redraw now s)) = desired_positions s"
  "velocity_time (after (redraw now s)) = velocity_time s"
  "velocities (after (redraw now s)) = velocities s"
  "printed (after (redraw now s)) = printed s"
  using after_redraw [of now s] by auto

lemma lens_ok_redraw [simp]: "lens_ok (after (redraw now s)) = lens_ok s"
  by (simp add: lens_ok_def)

lemma after_update:
  "after (update now q s) =
     (case prune_step now s of Inl (e, s1) \<Rightarrow> s1 | Inr p \<Rightarrow> after (redraw now (drain q p)))"
  by (simp add: update_def then_do_def split: sum.splits)

lemma lens_ok_drain: "lens_ok s \<Longrightarrow> lens_ok (drain q s)"
  using drain_extends [of q] by (auto simp: lens_ok_extended)

lemma lens_ok_prune_step: "lens_ok s \<Longrightarrow> lens_ok (after (prune_step now s))"
  using prune_step_evicts [of s now] by (auto simp: lens_ok_evicted)

lemma lens_ok_update: "lens_ok s \<Longrightarrow> lens_ok (after (update now q s))"
  using lens_ok_prune_step [of s now]
  by (auto simp: after_update lens_ok_drain split: sum.splits)

lemma lens_ok_run: "lens_ok s \<Longrightarrow> lens_ok (run ticks s)"
  by (induction ticks arbitrary: s) (auto simp: lens_ok_update)

subsection \<open>What a tick does to the axes\<close>

lemma prune_freq_axes:
  "ax_freq (after (prune_freq now s)) = ax_freq s"
  "ax_pos (after (prune_freq now s)) = ax_pos s"
  "ax_pos_deg (after (prune_freq now s)) = ax_pos_deg s"
  "ax_vel (after (prune_freq now s)) = ax_vel s"
  "ax_vel_deg (after (prune_freq now s)) = ax_vel_deg s"
  by (simp_all add: prune_freq_after split: prod.splits)

lemma prune_pos_axes:
  "ax_freq (after (prune_pos now s)) = ax_freq s"
  "ax_pos (after (prune_pos now s)) = ax_pos s"
  "ax_pos_deg (after (prune_pos now s)) = ax_pos_deg s"
  "ax_vel (after (prune_pos now s)) = ax_vel s"
  "ax_vel_deg (after (prune_pos now s)) = ax_vel_deg s"
  by (simp_all add: prune_pos_after split: prod.splits)

lemma prune_vel_axes:
  "ax_freq (after (prune_vel now s)) = ax_freq s"
  "ax_pos (after (prune_vel now s)) = ax_pos s"
  "ax_pos_deg (after (prune_vel now s)) = ax_pos_deg s"
  "ax_vel (after (prune_vel now s)) = ax_vel s"
  "ax_vel_deg (after (prune_vel now s)) = ax_vel_deg s"
  by (simp_all add: prune_vel_after split: prod.splits)

lemma prune_step_axes:
  assumes "prune_step now s = Inr p"
  shows "ax_freq p = ax_freq s" "ax_pos p = ax_pos s" "ax_pos_deg p = ax_pos_deg s"
    "ax_vel p = ax_vel s" "ax_vel_deg p = ax_vel_deg s"
proof -
  from assms obtain s1 s2 where steps: "prune_freq now s = Inr s1" "prune_pos now s1 = Inr s2"
    "prune_vel now s2 = Inr p"
    by (auto simp: prune_step_def then_do_def split: sum.splits)
  then have "s1 = after (prune_freq now s)" "s2 = after (prune_pos now s1)"
    "p = after (prune_vel now s2)" by simp_all
  then show "ax_freq p = ax_freq s" "ax_pos p = ax_pos s" "ax_pos_deg p = ax_pos_deg s"
    "ax_vel p = ax_vel s" "ax_vel_deg p = ax_vel_deg s"
    by (simp_all only: prune_freq_axes prune_pos_axes prune_vel_axes)
qed

lemma drain_axes:
  "ax_freq (drain q s) = ax_freq s" "ax_pos (drain q s) = ax_pos s"
  "ax_pos_deg (drain q s) = ax_pos_deg s"
  "ax_vel (drain q s) = ax_vel s" "ax_vel_deg (drain q s) = ax_vel_deg s"
  using drain_extends [of q] by auto

lemma redraw_without_freq:
  assumes "time_data b = [] \<or> freq_data b = []"
  shows "redraw now b = then_do (redraw_pos now b) (redraw_vel now)"
    and "ax_freq (after (redraw now b)) = ax_freq b"
proof -
  from assms have skip: "redraw_freq now b = Inr b" by (auto simp: redraw_freq_def)
  then show eq: "redraw now b = then_do (redraw_pos now b) (redraw_vel now)"
    by (simp add: redraw_def)
  have "ax_freq (after (then_do (redraw_pos now b) (redraw_vel now))) = ax_freq b"
    by (cases "redraw_pos now b")
       (use redraw_pos_keeps(9) [of now b] redraw_vel_keeps(9) in auto)
  with eq show "ax_freq (after (redraw now b)) = ax_freq b" by simp
qed

lemma redraw_without_pos:
  assumes "position_time b = [] \<or> positions b = [] \<or> desired_positions b = []"
  shows "redraw now b = then_do (redraw_freq now b) (redraw_vel now)"
    and "ax_pos (after (redraw now b)) = ax_pos b"
    and "ax_pos_deg (after (redraw now b)) = ax_pos_deg b"
proof -
  show eq: "redraw now b = then_do (redraw_freq now b) (redraw_vel now)"
  proof (cases "redraw_freq now b")
    case (Inl x)
    then show ?thesis by (simp add: redraw_def)
  next
    case (Inr s1)
    then have "s1 = after (redraw_freq now b)" by simp
    with assms have "position_time s1 = [] \<or> positions s1 = [] \<or> desired_positions s1 = []"
      by simp
    then have "redraw_pos now s1 = Inr s1" by (auto simp: redraw_pos_def)
    with Inr show ?thesis by (simp add: redraw_def)
  qed
  have "ax_pos (after (then_do (redraw_freq now b) (redraw_vel now))) = ax_pos b
      \<and> ax_pos_deg (after (then_do (redraw_freq now b) (redraw_vel now))) = ax_pos_deg b"
    by (cases "redraw_freq now b")
       (use redraw_freq_keeps(9,10) [of now b] redraw_vel_keeps(10,11) in auto)
  with eq show "ax_pos (after (redraw now b)) = ax_pos b"
    and "ax_pos_deg (after (redraw now b)) = ax_pos_deg b" by simp_all
qed

lemma redraw_without_vel:
  assumes "velocity_time b = [] \<or> velocities b = []"
  shows "redraw now b = then_do (redraw_freq now b) (redraw_pos now)"
    and "ax_vel (after (redraw now b)) = ax_vel b"
    and "ax_vel_deg (after (redraw now b)) = ax_vel_deg b"
proof -
  show eq: "redraw now b = then_do (redraw_freq now b) (redraw_pos now)"
  proof (cases "redraw_freq now b")
    case (Inl x)
    then show ?thesis by (simp add: redraw_def)
  next
    case s1: (Inr s1)
    then have s1_eq: "s1 = after (redraw_freq now b)" by simp
    show ?thesis
    proof (cases "redraw_pos now s1")
      case (Inl x)
      with s1 show ?thesis by (simp add: redraw_def)
    next
      case (Inr s2)
      then have "s2 = after (redraw_pos now s1)" by simp
      with assms s1_eq have "velocity_time s2 = [] \<or> velocities s2 = []" by simp
      then have "redraw_vel now s2 = Inr s2" by (auto simp: redraw_vel_def)
      with s1 Inr show ?thesis by (simp add: redraw_def)
    qed
  qed
  have "ax_vel (after (then_do (redraw_freq now b) (redraw_pos now))) = ax_vel b
      \<and> ax_vel_deg (after (then_do (redraw_freq now b) (redraw_pos now))) = ax_vel_deg b"
    by (cases "redraw_freq now b")
       (use redraw_freq_keeps(11,12) [of now b] redraw_pos_keeps(10,11) in auto)
  with eq show "ax_vel (after (redraw now b)) = ax_vel b"
    and "ax_vel_deg (after (redraw now b)) = ax_vel_deg b" by simp_all
qed

subsection \<open>Each series under the prune step\<close>

lemma prune_keeps:
  "position_time (after (prune_freq now s)) = position_time s"
  "velocity_time (after (prune_freq now s)) = velocity_time s"
  "time_data (after (prune_pos now s)) = time_data s"
  "velocity_time (after (prune_pos now s)) = velocity_time s"
  "time_data (after (prune_vel now s)) = time_data s"
  "position_time (after (prune_vel now s)) = position_time s"
  by (simp_all add: prune_freq_after prune_pos_after prune_vel_after split: prod.splits)

lemma after_prune_step:
  "after (prune_step now s) =
     (case prune_freq now s of
        Inl (e, s1) \<Rightarrow> s1
      | Inr s1 \<Rightarrow> (case prune_pos now s1 of
                     Inl (e, s2) \<Rightarrow> s2
                   | Inr s2 \<Rightarrow> after (prune_vel now s2)))"
  by (simp add: prune_step_def then_do_def split: sum.splits)

lemma lens_ok_prune_freq: "lens_ok s \<Longrightarrow> lens_ok (after (prune_freq now s))"
  using prune_freq_evicts [of s now] by (auto simp: lens_ok_evicted)

lemma lens_ok_prune_pos: "lens_ok s \<Longrightarrow> lens_ok (after (prune_pos now s))"
  using prune_pos_evicts [of s now] by (auto simp: lens_ok_evicted)

lemma frequency_series_pruned:
  assumes "lens_ok s" and "nondecreasing (time_data s)"
  shows "\<exists>j \<le> length (time_data s).
           time_data (after (prune_step now s)) = drop j (time_data s)
         \<and> within_window now (drop j (time_data s))"
proof -
  from prune_freq_sorted [OF assms, of now] obtain j where j: "j \<le> length (time_data s)"
    and f: "prune_freq now s = Inr (evicted j 0 0 s)"
    and w: "within_window now (drop j (time_data s))" by blast
  let ?s1 = "evicted j 0 0 s"
  have "time_data (after (prune_step now s)) = time_data ?s1"
  proof (cases "prune_pos now ?s1")
    case (Inl x)
    then have "after (prune_step now s) = after (prune_pos now ?s1)"
      using f by (cases x) (simp add: after_prune_step)
    then show ?thesis by (simp only: prune_keeps)
  next
    case (Inr s2)
    then have "s2 = after (prune_pos now ?s1)" by simp
    moreover have "after (prune_step now s) = after (prune_vel now s2)"
      using f Inr by (simp add: after_prune_step)
    ultimately show ?thesis by (simp only: prune_keeps)
  qed
  with j w show ?thesis by auto
qed

lemma position_series_pruned:
  assumes "lens_ok s" and "nondecreasing (position_time s)"
  shows "\<exists>j \<le> length (position_time s).
           position_time (after (prune_step now s)) = drop j (position_time s)
         \<and> ((\<exists>s1. prune_freq now s = Inr s1) \<longrightarrow> within_window now (drop j (position_time s)))"
proof (cases "prune_freq now s")
  case (Inl x)
  then have "after (prune_step now s) = after (prune_freq now s)"
    by (cases x) (simp add: after_prune_step)
  then have "position_time (after (prune_step now s)) = drop 0 (position_time s)"
    by (simp only: prune_keeps drop_0)
  with Inl show ?thesis by (metis le0 sum.distinct(1))
next
  case s1: (Inr s1)
  then have s1_eq: "s1 = after (prune_freq now s)" by simp
  have ok1: "lens_ok s1" unfolding s1_eq using assms(1) by (rule lens_ok_prune_freq)
  have t1: "position_time s1 = position_time s" unfolding s1_eq by (simp only: prune_keeps)
  then have "nondecreasing (position_time s1)" using assms(2) by simp
  from prune_pos_sorted [OF ok1 this, of now] obtain j where j: "j \<le> length (position_time s)"
    and p: "prune_pos now s1 = Inr (evicted 0 j 0 s1)"
    and w: "within_window now (drop j (position_time s))"
    unfolding t1 by blast
  have "after (prune_step now s) = after (prune_vel now (evicted 0 j 0 s1))"
    using s1 p by (simp add: after_prune_step)
  then have "position_time (after (prune_step now s)) = position_time (evicted 0 j 0 s1)"
    by (simp only: prune_keeps)
  then have "position_time (after (prune_step now s)) = drop j (position_time s)"
    using t1 by simp
  with j w show ?thesis by blast
qed

lemma velocity_series_pruned:
  assumes "lens_ok s" and "nondecreasing (velocity_time s)"
  shows "\<exists>j \<le> length (velocity_time s).
           velocity_time (after (prune_step now s)) = drop j (velocity_time s)
         \<and> ((\<exists>s1 s2. prune_freq now s = Inr s1 \<and> prune_pos now s1 = Inr s2)
              \<longrightarrow> within_window now (drop j (velocity_time s)))"
proof (cases "prune_freq now s")
  case (Inl x)
  then have "after (prune_step now s) = after (prune_freq now s)"
    by (cases x) (simp add: after_prune_step)
  then have "velocity_time (after (prune_step now s)) = drop 0 (velocity_time s)"
    by (simp only: prune_keeps drop_0)
  with Inl show ?thesis by (metis le0 sum.distinct(1))
next
  case s1: (Inr s1)
  then have s1_eq: "s1 = after (prune_freq now s)" by simp
  have ok1: "lens_ok s1" unfolding s1_eq using assms(1) by (rule lens_ok_prune_freq)
  have t1: "velocity_time s1 = velocity_time s" unfolding s1_eq by (simp only: prune_keeps)
  show ?thesis
  proof (cases "prune_pos now s1")
    case (Inl x)
    then have "after (prune_step now s) = after (prune_pos now s1)"
      using s1 by (cases x) (simp add: after_prune_step)
    then have "velocity_time (after (prune_step now s)) = drop 0 (velocity_time s)"
      using t1 by (simp only: prune_keeps drop_0)
    moreover have "\<not> (\<exists>s1 s2. prune_freq now s = Inr s1 \<and> prune_pos now s1 = Inr s2)"
      using s1 Inl by auto
    ultimately show ?thesis by (metis le0)
  next
    case s2: (Inr s2)
    then have s2_eq: "s2 = after (prune_pos now s1)" by simp
    have ok2: "lens_ok s2" unfolding s2_eq using ok1 by (rule lens_ok_prune_pos)
    have t2: "velocity_time s2 = velocity_time s" unfolding s2_eq using t1
      by (simp only: prune_keeps)
    then have "nondecreasing (velocity_time s2)" using assms(2) by simp
    from prune_vel_sorted [OF ok2 this, of now] obtain j where j: "j \<le> length (velocity_time s)"
      and v: "prune_vel now s2 = Inr (evicted 0 0 j s2)"
      and w: "within_window now (drop j (velocity_time s))"
      unfolding t2 by blast
    have "after (prune_step now s) = evicted 0 0 j s2"
      using s1 s2 v by (simp add: after_prune_step)
    then have "velocity_time (after (prune_step now s)) = drop j (velocity_time s)"
      using t2 by simp
    with j w show ?thesis by blast
  qed
qed

lemma drain_only_appends:
  "time_data (drain q s) = time_data s @ time_data (drain q init_dash)"
  "position_time (drain q s) = position_time s @ position_time (drain q init_dash)"
  "velocity_time (drain q s) = velocity_time s @ velocity_time (drain q init_dash)"
proof -
  obtain d where d: "\<forall>s. drain q s = extended d s"
    using drain_extends [of q] by blast
  then have i: "drain q init_dash = extended d init_dash" by blast
  show "time_data (drain q s) = time_data s @ time_data (drain q init_dash)"
    "position_time (drain q s) = position_time s @ position_time (drain q init_dash)"
    "velocity_time (drain q s) = velocity_time s @ velocity_time (drain q init_dash)"
    unfolding i using d by (simp_all add: init_dash_def)
qed

lemma after_update_cases:
  "after (update now q s) = after (prune_step now s)
   \<or> same_buffers (after (update now q s)) (drain q (after (prune_step now s)))"
  by (cases "prune_step now s") (auto simp: after_update same_buffers_def)

subsection \<open>What a completed redraw draws\<close>

lemma plot_done: "plot xs ys a = Inr a' \<Longrightarrow> a' = a\<lparr>lines := lines a @ [(xs, ys)]\<rparr>"
  by (simp add: plot_def split: if_splits)

lemma pos_joints_done:
  "pos_joints js pt ps ds (lo, hi, a) = Inr (lo', hi', a') \<Longrightarrow>
     a' = a\<lparr>lines := lines a @ concat (map (\<lambda>i. [(pt, col_of ps i), (pt, col_of ds i)]) js)\<rparr>"
proof (induction js arbitrary: lo hi a)
  case Nil
  then show ?case by simp
next
  case (Cons i js)
  from Cons.prems obtain act des lo1 hi1 a1 a2 where
    c: "column ps i = Inr act" "column ds i = Inr des"
    and p: "plot pt act a = Inr a1" "plot pt des a1 = Inr a2"
    and r: "pos_joints js pt ps ds (lo1, hi1, a2) = Inr (lo', hi', a')"
    by (auto split: sum.splits)
  from p have "a2 = a\<lparr>lines := lines a @ [(pt, act), (pt, des)]\<rparr>"
    by (auto dest!: plot_done)
  with Cons.IH [OF r] c show ?case by (simp add: col_of_def)
qed

lemma vel_joints_done:
  "vel_joints js vt vs (lo, hi, a) = Inr (lo', hi', a') \<Longrightarrow>
     a' = a\<lparr>lines := lines a @ map (\<lambda>i. (vt, col_of vs i)) js\<rparr>"
proof (induction js arbitrary: lo hi a)
  case Nil
  then show ?case by simp
next
  case (Cons i js)
  from Cons.prems obtain jv lo1 hi1 a1 where
    c: "column vs i = Inr jv"
    and p: "plot vt jv a = Inr a1"
    and r: "vel_joints js vt vs (lo1, hi1, a1) = Inr (lo', hi', a')"
    by (auto split: sum.splits)
  from p have "a1 = a\<lparr>lines := lines a @ [(vt, jv)]\<rparr>"
    by (auto dest!: plot_done)
  with Cons.IH [OF r] c show ?case by (simp add: col_of_def)
qed

lemma redraw_freq_done:
  assumes "redraw_freq now s = Inr s'" and "time_data s \<noteq> []" and "freq_data s \<noteq> []"
  shows "ax_freq s' = \<lparr>hlines = [50], lines = [(time_data s, freq_data s)],
           xlim = set_lim (now - max_time_window) now, ylim = set_lim 0 60\<rparr>"
  using assms
  by (auto simp: redraw_freq_def Let_def plot_def cleared_def split: if_splits)

lemma redraw_pos_done:
  assumes "redraw_pos now s = Inr s'"
    and "position_time s \<noteq> []" and "positions s \<noteq> []" and "desired_positions s \<noteq> []"
  shows "hlines (ax_pos s') = []"
    and "lines (ax_pos s') = concat (map (\<lambda>i. [(position_time s, col_of (positions s) i),
            (position_time s, col_of (desired_positions s) i)]) [0..<num_joints])"
    and "xlim (ax_pos s') = set_lim (now - max_time_window) now"
proof -
  from assms obtain lo hi a where
    j: "pos_joints [0..<num_joints] (position_time s) (positions s) (desired_positions s)
          (None, None, cleared) = Inr (Some lo, Some hi, a)"
    and s': "ax_pos s' = a\<lparr>xlim := set_lim (now - max_time_window) now, ylim := set_lim lo hi\<rparr>"
    by (auto simp: redraw_pos_def Let_def split: sum.splits prod.splits option.splits)
  from pos_joints_done [OF j] s'
  show "hlines (ax_pos s') = []"
    and "lines (ax_pos s') = concat (map (\<lambda>i. [(position_time s, col_of (positions s) i),
            (position_time s, col_of (desired_positions s) i)]) [0..<num_joints])"
    and "xlim (ax_pos s') = set_lim (now - max_time_window) now"
    by (simp_all add: cleared_def)
qed

lemma redraw_vel_done:
  assumes "redraw_vel now s = Inr s'"
    and "velocity_time s \<noteq> []" and "velocities s \<noteq> []"
  shows "hlines (ax_vel s') = []"
    and "lines (ax_vel s') = map (\<lambda>i. (velocity_time s, col_of (velocities s) i)) [0..<num_joints]"
    and "xlim (ax_vel s') = set_lim (now - max_time_window) now"
proof -
  from assms obtain lo hi a where
    j: "vel_joints [0..<num_joints] (velocity_time s) (velocities s)
          (None, None, cleared) = Inr (Some lo, Some hi, a)"
    and s': "ax_vel s' = a\<lparr>xlim := set_lim (now - max_time_window) now, ylim := set_lim lo hi\<rparr>"
    by (auto simp: redraw_vel_def Let_def split: sum.splits prod.splits option.splits)
  from vel_joints_done [OF j] s'
  show "hlines (ax_vel s') = []"
    and "lines (ax_vel s') = map (\<lambda>i. (velocity_time s, col_of (velocities s) i)) [0..<num_joints]"
    and "xlim (ax_vel s') = set_lim (now - max_time_window) now"
    by (simp_all add: cleared_def)
qed

lemma redraw_done:
  assumes "redraw now b = Inr s'"
  shows "\<exists>s1 s2. redraw_freq now b = Inr s1 \<and> redraw_pos now s1 = Inr s2
           \<and> redraw_vel now s2 = Inr s'"
proof (cases "redraw_freq now b")
  case (Inl x)
  with assms show ?thesis by (simp add: redraw_def)
next
  case s1: (Inr s1)
  show ?thesis
  proof (cases "redraw_pos now s1")
    case (Inl x)
    with assms s1 show ?thesis by (simp add: redraw_def)
  next
    case (Inr s2)
    with assms s1 show ?thesis by (simp add: redraw_def)
  qed
qed

text \<open>The conversion factor is not one: \<open>\<pi>\<close> is below four.\<close>

lemma deg_factor_not_one: "(1/20) * 180 / pi \<noteq> (1/20 :: real)"
proof -
  have "pi < 4" by (rule pi_less_4)
  then have "1 < 180 / pi"
    using pi_gt_zero by (simp add: field_simps)
  then show ?thesis by (simp add: field_simps)
qed

text \<open>
  Away from the degenerate ranges the two axes of a dual chart agree: when the largest
  magnitude of the radian limits is not below the threshold of \<^const>\<open>nonsingular\<close>, the
  degree axis gets the range of the radian axis, converted.
\<close>

lemma set_lim_rad2deg:
  assumes "lo \<le> hi" and "(10 ^ 6 / rel_tiny) * float_tiny \<le> max \<bar>lo\<bar> \<bar>hi\<bar>"
  shows "set_lim (rad2deg lo) (rad2deg hi)
           = (rad2deg (fst (set_lim lo hi)), rad2deg (snd (set_lim lo hi)))"
proof -
  define k :: real where "k = 180 / pi"
  define T :: real where "T = (10 ^ 6 / rel_tiny) * float_tiny"
  define m where "m = max \<bar>lo\<bar> \<bar>hi\<bar>"
  define mk where "mk = max \<bar>k * lo\<bar> \<bar>k * hi\<bar>"
  have k1: "1 < k" unfolding k_def using pi_less_4 pi_gt_zero by (simp add: field_simps)
  then have k0: "0 < k" by simp
  have r: "\<And>x. rad2deg x = k * x" by (simp add: rad2deg_def k_def)
  have ab: "\<And>x. \<bar>k * x\<bar> = k * \<bar>x\<bar>" using k0 by (simp add: abs_mult)
  have mk_eq: "mk = k * m" unfolding mk_def m_def ab using k0 by (simp add: max_def)
  have m0: "0 \<le> m" unfolding m_def by simp
  have T0: "0 < T" unfolding T_def by (simp add: rel_tiny_def float_tiny_def)
  have Tm: "T \<le> m" using assms(2) unfolding T_def m_def .
  have A: "(hi < lo) = False" using assms(1) by simp
  have Ak: "(k * hi < k * lo) = False" using assms(1) k0 by simp
  have B: "(m < T) = False" using Tm by simp
  have "m \<le> k * m" using k1 m0 by (simp add: mult_le_cancel_right1)
  then have Bk: "(mk < T) = False" using Tm unfolding mk_eq by simp
  have C: "(hi = 0 \<and> lo = 0) = False"
  proof -
    have "hi = 0 \<and> lo = 0 \<Longrightarrow> m = 0" unfolding m_def by simp
    with Tm T0 show ?thesis by auto
  qed
  have Ck: "(k * hi = 0 \<and> k * lo = 0) = False" using C k0 by simp
  have "k * hi - k * lo = k * (hi - lo)" by (simp add: algebra_simps)
  moreover have "mk * rel_tiny = k * (m * rel_tiny)" unfolding mk_eq by simp
  ultimately have D: "(k * hi - k * lo \<le> mk * rel_tiny) = (hi - lo \<le> m * rel_tiny)"
    using k0 by (simp only: mult_le_cancel_left_pos)
  have n0: "nonsingular lo hi =
      (if hi - lo \<le> m * rel_tiny then (lo - expander * \<bar>lo\<bar>, hi + expander * \<bar>hi\<bar>)
       else (lo, hi))"
    unfolding nonsingular_def Let_def A if_False m_def [symmetric] T_def [symmetric] B C ..
  have n1: "nonsingular (k * lo) (k * hi) =
      (if hi - lo \<le> m * rel_tiny
       then (k * lo - expander * \<bar>k * lo\<bar>, k * hi + expander * \<bar>k * hi\<bar>)
       else (k * lo, k * hi))"
    unfolding nonsingular_def Let_def Ak if_False mk_def [symmetric] T_def [symmetric] Bk Ck D ..
  have e: "k * lo - expander * \<bar>k * lo\<bar> = k * (lo - expander * \<bar>lo\<bar>)"
    "k * hi + expander * \<bar>k * hi\<bar> = k * (hi + expander * \<bar>hi\<bar>)"
    unfolding ab by (simp_all add: algebra_simps)
  have ord: "lo - expander * \<bar>lo\<bar> \<le> hi + expander * \<bar>hi\<bar>"
  proof -
    have "0 \<le> expander * \<bar>lo\<bar>" "0 \<le> expander * \<bar>hi\<bar>" by (simp_all add: expander_def)
    with assms(1) show ?thesis by linarith
  qed
  then have ordk: "k * (lo - expander * \<bar>lo\<bar>) \<le> k * (hi + expander * \<bar>hi\<bar>)"
    using k0 by (simp only: mult_le_cancel_left_pos)
  have le: "k * lo \<le> k * hi" using assms(1) k0 by simp
  show ?thesis
  proof (cases "hi - lo \<le> m * rel_tiny")
    case True
    then have "set_lim lo hi = (lo - expander * \<bar>lo\<bar>, hi + expander * \<bar>hi\<bar>)"
      unfolding set_lim_def n0 using assms(1) ord by (simp add: min_def max_def)
    moreover from True have "set_lim (k * lo) (k * hi)
        = (k * (lo - expander * \<bar>lo\<bar>), k * (hi + expander * \<bar>hi\<bar>))"
      unfolding set_lim_def n1 e using Ak ordk by (simp add: min_def max_def)
    ultimately show ?thesis unfolding r by simp
  next
    case False
    then have "set_lim lo hi = (lo, hi)"
      unfolding set_lim_def n0 using assms(1) by (simp add: min_def max_def)
    moreover from False have "set_lim (k * lo) (k * hi) = (k * lo, k * hi)"
      unfolding set_lim_def n1 using Ak le by (simp add: min_def max_def)
    ultimately show ?thesis unfolding r by simp
  qed
qed

section \<open>The claims\<close>

text \<open>The definitions that evaluating the model on a concrete input unfolds.\<close>

lemma joints_range: "[0..<num_joints] = [0, 1, 2, 3, 4, 5, 6, 7, 8, 9]"
  unfolding num_joints_def by (simp add: upt_rec)

lemmas eval_defs = max_time_window_def frequency_sample_def positions_sample_def
  velocities_sample_def drain_one_def except_print_def try_body_def unpack2_def unpack3_def
  ingest_frequency_def ingest_positions_def ingest_velocities_def init_dash_def
  prune_step_def prune_freq_def prune_pos_def prune_vel_def update_def redraw_def
  redraw_freq_def redraw_pos_def redraw_vel_def plot_def cleared_def joints_range
  py_min_def py_max_def lens_ok_def nondecreasing_def within_window_def Let_def
  update_ingest_first_def set_lim_def nonsingular_def expander_def rel_tiny_def float_tiny_def

text \<open>
  C10. \<^verbatim>\<open>prune_data\<close> terminates for every finite buffer and every current time. The
  loop is a total function by recursion on the popped time array; counted from zero, the
  iterations it completes are at most the length of the time array: when it returns, the
  time array is the given one without its first \<open>iterations\<close> entries, and when it raises,
  the completed iterations and the entries left are together no more than the given
  length.
\<close>

theorem prune_data_terminates:
  "case prune_data now time_array data_arrays 0 of
     Inl (e, (iterations, ta', das')) \<Rightarrow> iterations + length ta' \<le> length time_array
   | Inr (iterations, ta', das') \<Rightarrow>
       iterations \<le> length time_array \<and> ta' = drop iterations time_array"
  using prune_data_count [where now=now and ta=time_array and das=data_arrays and n=0]
  by (auto split: sum.splits)

theorem prune_data_terminates_witness:
  "prune_data (16 / 10) [Num 0, Num (1 / 2), Num 1] [[Num 50, Num 52, Num 49]] 0
     = Inr (2, [Num 1], [[Num 49]])
   \<and> prune_data 2 [Num 0, Str ''x''] [[Num 50, Num 52]] 0
     = Inl (TypeError, (1, [Str ''x''], [[Num 52]]))"
  using prune_data_terminates [where now="16 / 10" and time_array="[Num 0, Num (1 / 2), Num 1]"
      and data_arrays="[[Num 50, Num 52, Num 49]]"]
  by (simp add: max_time_window_def)

text \<open>
  C8. After every tick, for every sequence of queue entries, the parallel arrays of each
  series have equal lengths: the time and frequency arrays, the position time, actual and
  desired arrays, the velocity time and rate arrays. It holds of every state reached from
  the initial one, and the prune step, the drain and the whole tick each preserve it,
  also when the tick is left by an exception.
\<close>

theorem parallel_arrays_equal_length:
  "lens_ok (run ticks init_dash) \<and>
   (lens_ok s \<longrightarrow>
      lens_ok (after (prune_step now s)) \<and> lens_ok (drain q s) \<and>
      lens_ok (after (update now q s)))"
  by (simp add: lens_ok_run lens_ok_prune_step lens_ok_drain lens_ok_update)

theorem parallel_arrays_equal_length_witness:
  "lens_ok (drain [frequency_sample 0 50] init_dash) \<and>
   lens_ok (after (prune_step 2 (drain [frequency_sample 0 50] init_dash))) \<and>
   lens_ok (drain [Item (Tup [Str ''positions'', Tup [Num 1, Num 2]]), velocities_sample 1 [0, 0]]
      (drain [frequency_sample 0 50] init_dash)) \<and>
   lens_ok (after (update 2
      [Item (Tup [Str ''positions'', Tup [Num 1, Num 2]]), velocities_sample 1 [0, 0]]
      (drain [frequency_sample 0 50] init_dash)))"
proof -
  have h: "lens_ok (drain [frequency_sample 0 50] init_dash)"
    by (simp add: eval_defs)
  show ?thesis
    using h parallel_arrays_equal_length [where ticks="[]"
        and s="drain [frequency_sample 0 50] init_dash" and now=2
        and q="[Item (Tup [Str ''positions'', Tup [Num 1, Num 2]]), velocities_sample 1 [0, 0]]"]
    by blast
qed

text \<open>
  C9. Ingesting one entry is atomic. The payload is unpacked before the first append, so
  when the \<^verbatim>\<open>try\<close> body raises, the state is the one it started from and the handler
  leaves all seven buffers as they were; when it completes, either nothing changed or
  every array of exactly one series received exactly one append.
\<close>

theorem ingest_atomic:
  "case try_body it s of
     Inl (e, s') \<Rightarrow> s' = s \<and> same_buffers s (drain_one it s)
   | Inr s' \<Rightarrow>
       s' = s
       \<or> (\<exists>t freq. s' = s\<lparr>time_data := time_data s @ [t], freq_data := freq_data s @ [freq]\<rparr>)
       \<or> (\<exists>t pos desired_pos.
             s' = s\<lparr>position_time := position_time s @ [t], positions := positions s @ [pos],
                    desired_positions := desired_positions s @ [desired_pos]\<rparr>)
       \<or> (\<exists>t vel. s' = s\<lparr>velocity_time := velocity_time s @ [t],
                              velocities := velocities s @ [vel]\<rparr>)"
proof (cases "try_body it s")
  case (Inl x)
  obtain e s' where x: "x = (e, s')" by (cases x)
  with Inl have "s' = s" by (auto dest: try_body_raise)
  with Inl x show ?thesis
    by (simp add: drain_one_def except_print_def same_buffers_def)
next
  case ran: (Inr s')
  from ran obtain v where it: "it = Item v"
    by (cases it) (simp_all add: try_body_def)
  with ran obtain data_type data where un: "unpack2 v = Inr (data_type, data)"
    by (cases "unpack2 v") (auto simp: try_body_def)
  consider (f) "data_type = Str ''frequency''" | (p) "data_type = Str ''positions''"
    | (v) "data_type = Str ''velocities''"
    | (u) "data_type \<noteq> Str ''frequency''" "data_type \<noteq> Str ''positions''"
          "data_type \<noteq> Str ''velocities''"
    by blast
  then have "s' = s
       \<or> (\<exists>t freq. s' = s\<lparr>time_data := time_data s @ [t], freq_data := freq_data s @ [freq]\<rparr>)
       \<or> (\<exists>t pos desired_pos.
             s' = s\<lparr>position_time := position_time s @ [t], positions := positions s @ [pos],
                    desired_positions := desired_positions s @ [desired_pos]\<rparr>)
       \<or> (\<exists>t vel. s' = s\<lparr>velocity_time := velocity_time s @ [t],
                              velocities := velocities s @ [vel]\<rparr>)"
  proof cases
    case f
    with ran it un have "ingest_frequency data s = Inr s'" by (simp add: try_body_def)
    from ingest_frequency_done [OF this] show ?thesis by blast
  next
    case p
    with ran it un have "ingest_positions data s = Inr s'" by (simp add: try_body_def)
    from ingest_positions_done [OF this] show ?thesis by blast
  next
    case v
    with ran it un have "ingest_velocities data s = Inr s'" by (simp add: try_body_def)
    from ingest_velocities_done [OF this] show ?thesis by blast
  next
    case u
    with ran it un have "s' = s" by (simp add: try_body_def)
    then show ?thesis by blast
  qed
  with ran show ?thesis by simp
qed

theorem ingest_atomic_witness:
  "try_body (Item (Tup [Str ''positions'', Tup [Num 1, Tup [Num 0]]])) init_dash
     = Inl (ValueError, init_dash)
   \<and> try_body (Item (Tup [Str ''frequency'', Num 5])) init_dash = Inl (TypeError, init_dash)
   \<and> try_body (frequency_sample 1 50) init_dash
     = Inr (init_dash\<lparr>time_data := [Num 1], freq_data := [Num 50]\<rparr>)"
  using ingest_atomic [where it="Item (Tup [Str ''positions'', Tup [Num 1, Tup [Num 0]]])"
      and s=init_dash]
  by (simp add: eval_defs)

text \<open>
  C5. An entry that unpacks into a kind and a payload, with a kind that is none of
  \<^verbatim>\<open>"frequency"\<close>, \<^verbatim>\<open>"positions"\<close>, \<^verbatim>\<open>"velocities"\<close>, raises nothing and changes nothing:
  the buffers stay as they are and nothing is printed.
\<close>

theorem unknown_kind_ignored:
  assumes "unpack2 v = Inr (data_type, data)"
    and "data_type \<noteq> Str ''frequency''"
    and "data_type \<noteq> Str ''positions''"
    and "data_type \<noteq> Str ''velocities''"
  shows "try_body (Item v) s = Inr s \<and> drain_one (Item v) s = s"
  using assms by (simp add: try_body_def drain_one_def except_print_def)

theorem unknown_kind_ignored_witness:
  "unpack2 (Tup [Str ''torque'', Tup [Num 1, Num 2]]) = Inr (Str ''torque'', Tup [Num 1, Num 2])
   \<and> try_body (Item (Tup [Str ''torque'', Tup [Num 1, Num 2]])) init_dash = Inr init_dash
   \<and> drain_one (Item (Tup [Str ''torque'', Tup [Num 1, Num 2]])) init_dash = init_dash"
proof -
  have h: "unpack2 (Tup [Str ''torque'', Tup [Num 1, Num 2]])
      = Inr (Str ''torque'', Tup [Num 1, Num 2])"
    by (simp add: unpack2_def)
  have k: "Str ''torque'' \<noteq> Str ''frequency''" "Str ''torque'' \<noteq> Str ''positions''"
    "Str ''torque'' \<noteq> Str ''velocities''" by simp_all
  show ?thesis
    using h unknown_kind_ignored [OF h k, of init_dash] by simp
qed

text \<open>
  C4. When processing an entry raises during the drain, the exception is caught and
  printed, the buffers keep what the entries before it appended, the entries after it are
  still drained, and the tick goes on to the redraw.
\<close>

theorem drain_survives_exception:
  assumes "prune_step now s = Inr p"
    and "try_body it (drain pre p) = Inl (e, s')"
  shows "drain (pre @ it # post) p
           = drain post ((drain pre p)\<lparr>printed := printed (drain pre p) @ [e]\<rparr>)
       \<and> update now (pre @ it # post) s
           = redraw now (drain post ((drain pre p)\<lparr>printed := printed (drain pre p) @ [e]\<rparr>))"
proof -
  from assms(2) have "s' = drain pre p" by (rule try_body_raise)
  with assms(2) have "drain_one it (drain pre p)
      = (drain pre p)\<lparr>printed := printed (drain pre p) @ [e]\<rparr>"
    by (simp add: drain_one_def except_print_def)
  then have "drain (pre @ it # post) p
      = drain post ((drain pre p)\<lparr>printed := printed (drain pre p) @ [e]\<rparr>)"
    by (simp add: drain_append)
  with assms(1) show ?thesis by (simp add: update_def)
qed

theorem drain_survives_exception_witness:
  "prune_step 1 init_dash = Inr init_dash
   \<and> try_body Corrupt (drain [frequency_sample 0 50] init_dash)
       = Inl (QueueError, drain [frequency_sample 0 50] init_dash)
   \<and> drain ([frequency_sample 0 50] @ Corrupt # [frequency_sample (1/2) 52]) init_dash
       = init_dash\<lparr>time_data := [Num 0, Num (1/2)], freq_data := [Num 50, Num 52],
            printed := [QueueError]\<rparr>
   \<and> update 1 ([frequency_sample 0 50] @ Corrupt # [frequency_sample (1/2) 52]) init_dash
       = redraw 1 (init_dash\<lparr>time_data := [Num 0, Num (1/2)], freq_data := [Num 50, Num 52],
            printed := [QueueError]\<rparr>)"
proof -
  have h1: "prune_step 1 init_dash = Inr init_dash"
    by (simp add: eval_defs)
  have h2: "try_body Corrupt (drain [frequency_sample 0 50] init_dash)
       = Inl (QueueError, drain [frequency_sample 0 50] init_dash)"
    by (simp add: try_body_def)
  have v: "drain [frequency_sample (1/2) 52]
        ((drain [frequency_sample 0 50] init_dash)
           \<lparr>printed := printed (drain [frequency_sample 0 50] init_dash) @ [QueueError]\<rparr>)
      = init_dash\<lparr>time_data := [Num 0, Num (1/2)], freq_data := [Num 50, Num 52],
            printed := [QueueError]\<rparr>"
    by (simp add: eval_defs)
  show ?thesis
    using h1 h2 drain_survives_exception [OF h1 h2, of "[frequency_sample (1/2) 52]"]
    unfolding v by simp
qed

text \<open>
  C1. For every state reached by ticks whose series hold numeric, non-decreasing
  timestamps, and every current time \<open>now\<close>, the prune step completes and every timestamp
  \<open>t\<close> it retains, in each of the three series, satisfies \<open>now - t \<le> 1.0\<close>. In particular,
  after the frequency samples at \<open>t = 0.0\<close> and \<open>t = 0.5\<close> have been ingested at
  \<open>now = 0.5\<close>, the series is \<open>[(0.0, 50.0), (0.5, 52.0)]\<close>, and pruning at \<open>now = 1.6\<close>
  leaves it empty.
\<close>

theorem window_after_prune:
  assumes "s = run ticks init_dash"
    and "nondecreasing (time_data s)"
    and "nondecreasing (position_time s)"
    and "nondecreasing (velocity_time s)"
  shows "(\<exists>p. prune_step now s = Inr p
            \<and> within_window now (time_data p)
            \<and> within_window now (position_time p)
            \<and> within_window now (velocity_time p))
       \<and> (let s1 = run [(1/2, [frequency_sample 0 50, frequency_sample (1/2) 52])] init_dash
          in time_data s1 = [Num 0, Num (1/2)] \<and> freq_data s1 = [Num 50, Num 52]
             \<and> (\<exists>p. prune_step (16/10) s1 = Inr p \<and> time_data p = [] \<and> freq_data p = []))"
proof -
  have "lens_ok s" using assms(1) by (simp add: lens_ok_run)
  from prune_step_sorted [OF this assms(2-4), of now]
  have general: "\<exists>p. prune_step now s = Inr p
            \<and> within_window now (time_data p)
            \<and> within_window now (position_time p)
            \<and> within_window now (velocity_time p)"
    by auto
  have example: "let s1 = run [(1/2, [frequency_sample 0 50, frequency_sample (1/2) 52])] init_dash
          in time_data s1 = [Num 0, Num (1/2)] \<and> freq_data s1 = [Num 50, Num 52]
             \<and> (\<exists>p. prune_step (16/10) s1 = Inr p \<and> time_data p = [] \<and> freq_data p = [])"
    by (simp add: eval_defs)
  from general example show ?thesis by blast
qed


theorem window_after_prune_witness:
  "nondecreasing (time_data (run [(1, [frequency_sample 0 50, frequency_sample (1/2) 52,
        velocities_sample (3/4) [0, 1, 2, 3, 4, 5, 6, 7, 8, 9]])] init_dash))
   \<and> (\<exists>p. prune_step (16/10) (run [(1, [frequency_sample 0 50, frequency_sample (1/2) 52,
        velocities_sample (3/4) [0, 1, 2, 3, 4, 5, 6, 7, 8, 9]])] init_dash) = Inr p
        \<and> within_window (16/10) (time_data p)
        \<and> within_window (16/10) (position_time p)
        \<and> within_window (16/10) (velocity_time p))"
proof -
  let ?s = "run [(1, [frequency_sample 0 50, frequency_sample (1/2) 52,
        velocities_sample (3/4) [0, 1, 2, 3, 4, 5, 6, 7, 8, 9]])] init_dash"
  have h1: "nondecreasing (time_data ?s)" by (simp add: eval_defs)
  have h2: "nondecreasing (position_time ?s)" by (simp add: eval_defs)
  have h3: "nondecreasing (velocity_time ?s)" by (simp add: eval_defs)
  show ?thesis
    using h1 window_after_prune [OF refl h1 h2 h3, of "16/10"] by blast
qed

text \<open>
  C3, as stated, fails: nothing in the drain orders or checks the timestamps it appends.
  A tick at \<open>now = 1.0\<close> that drains a frequency sample stamped \<open>1.0\<close> and then one stamped
  \<open>0.0\<close> leaves the time array \<open>[1.0, 0.0]\<close>, which is not non-decreasing; the prune step at
  \<open>now = 1.5\<close> stops at the head, whose age is \<open>0.5\<close>, and retains the entry of age \<open>1.5\<close>.
\<close>

theorem series_invariant_counterexample:
  "\<not> nondecreasing (time_data (run [(1, [frequency_sample 1 50, frequency_sample 0 50])] init_dash))
   \<and> prune_step (3/2) (run [(1, [frequency_sample 1 50, frequency_sample 0 50])] init_dash)
       = Inr (run [(1, [frequency_sample 1 50, frequency_sample 0 50])] init_dash)
   \<and> time_data (run [(1, [frequency_sample 1 50, frequency_sample 0 50])] init_dash)
       = [Num 1, Num 0]
   \<and> \<not> within_window (3/2)
        (time_data (run [(1, [frequency_sample 1 50, frequency_sample 0 50])] init_dash))"
  by (simp add: eval_defs)

text \<open>
  C3, amended. For every state reached by ticks, every tick and each of the three series.
  The drain only appends to the series and the prune step only removes entries from its
  front. If the timestamps of the series are numeric and non-decreasing before the tick,
  they are so after the prune step, whether it completes or raises. Right after the prune
  step every retained timestamp \<open>t\<close> of the series satisfies \<open>now - t \<le> 1.0\<close>, provided the
  prune step reached the series: always for the frequency series, for the position series
  when the call on the frequency series did not raise, for the velocity series when
  neither earlier call raised. If moreover the timestamps the tick drains, appended to the
  retained ones, are numeric and non-decreasing, the series is non-decreasing after the
  tick.
\<close>

theorem series_invariant_amended:
  assumes "s = run ticks init_dash" and "p = after (prune_step now s)"
  shows "(\<exists>j1 j2 j3. p = evicted j1 j2 j3 s)
       \<and> time_data (drain q p) = time_data p @ time_data (drain q init_dash)
       \<and> position_time (drain q p) = position_time p @ position_time (drain q init_dash)
       \<and> velocity_time (drain q p) = velocity_time p @ velocity_time (drain q init_dash)
       \<and> (nondecreasing (time_data s) \<longrightarrow>
            (\<exists>j \<le> length (time_data s). time_data p = drop j (time_data s))
          \<and> nondecreasing (time_data p)
          \<and> within_window now (time_data p)
          \<and> (nondecreasing (time_data (drain q p)) \<longrightarrow>
                nondecreasing (time_data (after (update now q s)))))
       \<and> (nondecreasing (position_time s) \<longrightarrow>
            (\<exists>j \<le> length (position_time s). position_time p = drop j (position_time s))
          \<and> nondecreasing (position_time p)
          \<and> ((\<exists>s1. prune_freq now s = Inr s1) \<longrightarrow> within_window now (position_time p))
          \<and> (nondecreasing (position_time (drain q p)) \<longrightarrow>
                nondecreasing (position_time (after (update now q s)))))
       \<and> (nondecreasing (velocity_time s) \<longrightarrow>
            (\<exists>j \<le> length (velocity_time s). velocity_time p = drop j (velocity_time s))
          \<and> nondecreasing (velocity_time p)
          \<and> ((\<exists>s1 s2. prune_freq now s = Inr s1 \<and> prune_pos now s1 = Inr s2)
                \<longrightarrow> within_window now (velocity_time p))
          \<and> (nondecreasing (velocity_time (drain q p)) \<longrightarrow>
                nondecreasing (velocity_time (after (update now q s)))))"
proof -
  have ok: "lens_ok s" using assms(1) by (simp add: lens_ok_run)
  have tick: "after (update now q s) = p \<or> same_buffers (after (update now q s)) (drain q p)"
    unfolding assms(2) by (rule after_update_cases)
  have freq: "(\<exists>j \<le> length (time_data s). time_data p = drop j (time_data s))
          \<and> nondecreasing (time_data p)
          \<and> within_window now (time_data p)
          \<and> (nondecreasing (time_data (drain q p)) \<longrightarrow>
                nondecreasing (time_data (after (update now q s))))"
    if a: "nondecreasing (time_data s)"
  proof -
    from frequency_series_pruned [OF ok a, of now] obtain j where
      j: "j \<le> length (time_data s)" "time_data p = drop j (time_data s)"
        "within_window now (drop j (time_data s))"
      unfolding assms(2) by blast
    have sorted_p: "nondecreasing (time_data p)"
      unfolding j(2) using a by (rule nondecreasing_drop)
    have "nondecreasing (time_data (after (update now q s)))"
      if "nondecreasing (time_data (drain q p))"
      using tick that sorted_p by (auto simp: same_buffers_def)
    with j sorted_p show ?thesis by auto
  qed
  have pos: "(\<exists>j \<le> length (position_time s). position_time p = drop j (position_time s))
          \<and> nondecreasing (position_time p)
          \<and> ((\<exists>s1. prune_freq now s = Inr s1) \<longrightarrow> within_window now (position_time p))
          \<and> (nondecreasing (position_time (drain q p)) \<longrightarrow>
                nondecreasing (position_time (after (update now q s))))"
    if a: "nondecreasing (position_time s)"
  proof -
    from position_series_pruned [OF ok a, of now] obtain j where
      j: "j \<le> length (position_time s)" "position_time p = drop j (position_time s)"
        "(\<exists>s1. prune_freq now s = Inr s1) \<longrightarrow> within_window now (drop j (position_time s))"
      unfolding assms(2) by blast
    have sorted_p: "nondecreasing (position_time p)"
      unfolding j(2) using a by (rule nondecreasing_drop)
    have "nondecreasing (position_time (after (update now q s)))"
      if "nondecreasing (position_time (drain q p))"
      using tick that sorted_p by (auto simp: same_buffers_def)
    with j sorted_p show ?thesis by auto
  qed
  have vel: "(\<exists>j \<le> length (velocity_time s). velocity_time p = drop j (velocity_time s))
          \<and> nondecreasing (velocity_time p)
          \<and> ((\<exists>s1 s2. prune_freq now s = Inr s1 \<and> prune_pos now s1 = Inr s2)
                \<longrightarrow> within_window now (velocity_time p))
          \<and> (nondecreasing (velocity_time (drain q p)) \<longrightarrow>
                nondecreasing (velocity_time (after (update now q s))))"
    if a: "nondecreasing (velocity_time s)"
  proof -
    from velocity_series_pruned [OF ok a, of now] obtain j where
      j: "j \<le> length (velocity_time s)" "velocity_time p = drop j (velocity_time s)"
        "(\<exists>s1 s2. prune_freq now s = Inr s1 \<and> prune_pos now s1 = Inr s2)
           \<longrightarrow> within_window now (drop j (velocity_time s))"
      unfolding assms(2) by blast
    have sorted_p: "nondecreasing (velocity_time p)"
      unfolding j(2) using a by (rule nondecreasing_drop)
    have "nondecreasing (velocity_time (after (update now q s)))"
      if "nondecreasing (velocity_time (drain q p))"
      using tick that sorted_p by (auto simp: same_buffers_def)
    with j sorted_p show ?thesis by auto
  qed
  have front: "\<exists>j1 j2 j3. p = evicted j1 j2 j3 s"
    unfolding assms(2) using ok by (rule prune_step_evicts)
  from front drain_only_appends [of q p] freq pos vel show ?thesis by blast
qed

theorem series_invariant_amended_witness:
  "nondecreasing (time_data (run [(1/2, [frequency_sample 0 50, frequency_sample (1/2) 52,
        velocities_sample (2/5) [0, 1, 2, 3, 4, 5, 6, 7, 8, 9]])] init_dash))
   \<and> (\<exists>s1. prune_freq (13/10) (run [(1/2, [frequency_sample 0 50, frequency_sample (1/2) 52,
        velocities_sample (2/5) [0, 1, 2, 3, 4, 5, 6, 7, 8, 9]])] init_dash) = Inr s1)
   \<and> time_data (after (prune_step (13/10) (run [(1/2, [frequency_sample 0 50,
        frequency_sample (1/2) 52, velocities_sample (2/5) [0, 1, 2, 3, 4, 5, 6, 7, 8, 9]])]
        init_dash))) = [Num (1/2)]
   \<and> within_window (13/10) (time_data (after (prune_step (13/10) (run [(1/2,
        [frequency_sample 0 50, frequency_sample (1/2) 52,
         velocities_sample (2/5) [0, 1, 2, 3, 4, 5, 6, 7, 8, 9]])] init_dash))))
   \<and> within_window (13/10) (position_time (after (prune_step (13/10) (run [(1/2,
        [frequency_sample 0 50, frequency_sample (1/2) 52,
         velocities_sample (2/5) [0, 1, 2, 3, 4, 5, 6, 7, 8, 9]])] init_dash))))
   \<and> within_window (13/10) (velocity_time (after (prune_step (13/10) (run [(1/2,
        [frequency_sample 0 50, frequency_sample (1/2) 52,
         velocities_sample (2/5) [0, 1, 2, 3, 4, 5, 6, 7, 8, 9]])] init_dash))))
   \<and> nondecreasing (time_data (after (update (13/10) [frequency_sample (12/10) 49]
        (run [(1/2, [frequency_sample 0 50, frequency_sample (1/2) 52,
         velocities_sample (2/5) [0, 1, 2, 3, 4, 5, 6, 7, 8, 9]])] init_dash))))
   \<and> time_data (after (update (13/10) [frequency_sample (12/10) 49]
        (run [(1/2, [frequency_sample 0 50, frequency_sample (1/2) 52,
         velocities_sample (2/5) [0, 1, 2, 3, 4, 5, 6, 7, 8, 9]])] init_dash)))
       = [Num (1/2), Num (12/10)]"
proof -
  let ?s = "run [(1/2, [frequency_sample 0 50, frequency_sample (1/2) 52,
        velocities_sample (2/5) [0, 1, 2, 3, 4, 5, 6, 7, 8, 9]])] init_dash"
  let ?p = "after (prune_step (13/10) ?s)"
  let ?q = "[frequency_sample (12/10) 49]"
  have h1: "nondecreasing (time_data ?s)" by (simp add: eval_defs)
  have h2: "nondecreasing (position_time ?s)" by (simp add: eval_defs)
  have h3: "nondecreasing (velocity_time ?s)" by (simp add: eval_defs)
  have r1: "\<exists>s1. prune_freq (13/10) ?s = Inr s1" by (simp add: eval_defs)
  have r2: "\<exists>s1 s2. prune_freq (13/10) ?s = Inr s1 \<and> prune_pos (13/10) s1 = Inr s2"
    by (simp add: eval_defs)
  have tp: "time_data ?p = [Num (1/2)]" by (simp add: eval_defs)
  have dq: "time_data (drain ?q ?p) = [Num (1/2), Num (12/10)]" by (simp add: eval_defs)
  then have h4: "nondecreasing (time_data (drain ?q ?p))"
    by (simp add: nondecreasing_def)
  have tu: "time_data (after (update (13/10) ?q ?s)) = [Num (1/2), Num (12/10)]"
    by (simp add: eval_defs)
  note t = series_invariant_amended [OF refl refl, where now="13/10" and q="?q"
      and ticks="[(1/2, [frequency_sample 0 50, frequency_sample (1/2) 52,
        velocities_sample (2/5) [0, 1, 2, 3, 4, 5, 6, 7, 8, 9]])]"]
  from t h1 have wf: "within_window (13/10) (time_data ?p)" by blast
  from t h2 r1 have wp: "within_window (13/10) (position_time ?p)" by blast
  from t h3 r2 have wv: "within_window (13/10) (velocity_time ?p)" by blast
  from t h1 h4 have nu: "nondecreasing (time_data (after (update (13/10) ?q ?s)))" by blast
  from h1 r1 tp wf wp wv nu tu show ?thesis by blast
qed

text \<open>
  C2, as stated, fails: \<^verbatim>\<open>update\<close> prunes before it drains the queue. At \<open>now = 2.0\<close>
  a frequency sample stamped \<open>0.0\<close> is appended after the prune step, is drawn and stays in
  the buffer; in the order ingest, prune, redraw it would have been pruned.
\<close>

theorem tick_order_counterexample:
  "time_data (after (update 2 [frequency_sample 0 50] init_dash)) = [Num 0]
   \<and> lines (ax_freq (after (update 2 [frequency_sample 0 50] init_dash))) = [([Num 0], [Num 50])]
   \<and> time_data (after (update_ingest_first 2 [frequency_sample 0 50] init_dash)) = []
   \<and> update 2 [frequency_sample 0 50] init_dash
       \<noteq> update_ingest_first 2 [frequency_sample 0 50] init_dash"
  by (simp add: eval_defs)

text \<open>
  C2, amended. On every tick the order is prune, then ingest, then redraw: the queue is
  drained into the buffers the prune step left, the charts are redrawn from the buffers
  the drain left, and those are the buffers the tick leaves.
\<close>

theorem tick_order_amended:
  assumes "prune_step now s = Inr p"
  shows "update now q s = redraw now (drain q p)
       \<and> same_buffers (after (update now q s)) (drain q p)"
  using assms by (simp add: update_def same_buffers_def)

theorem tick_order_amended_witness:
  "prune_step 2 (init_dash\<lparr>time_data := [Num (1/2)], freq_data := [Num 52]\<rparr>) = Inr init_dash
   \<and> update 2 [frequency_sample 0 50] (init_dash\<lparr>time_data := [Num (1/2)], freq_data := [Num 52]\<rparr>)
       = redraw 2 (init_dash\<lparr>time_data := [Num 0], freq_data := [Num 50]\<rparr>)
   \<and> same_buffers
        (after (update 2 [frequency_sample 0 50]
           (init_dash\<lparr>time_data := [Num (1/2)], freq_data := [Num 52]\<rparr>)))
        (init_dash\<lparr>time_data := [Num 0], freq_data := [Num 50]\<rparr>)"
proof -
  have h: "prune_step 2 (init_dash\<lparr>time_data := [Num (1/2)], freq_data := [Num 52]\<rparr>)
      = Inr init_dash"
    by (simp add: eval_defs)
  have v: "drain [frequency_sample 0 50] init_dash
      = init_dash\<lparr>time_data := [Num 0], freq_data := [Num 50]\<rparr>"
    by (simp add: eval_defs)
  show ?thesis
    using h tick_order_amended [OF h, of "[frequency_sample 0 50]"] unfolding v by blast
qed

text \<open>
  C6 fails on the code. The comments of both charts say that the limits are stored to
  synchronize the two axes, and the degree axis is given the converted limits; but
  matplotlib widens an empty range on each axis by itself. A fresh dashboard that draws
  one velocity sample with all ten rates zero ends with the radian axis at
  \<open>(-0.05, 0.05)\<close> and the degree axis at \<open>(-0.05, 0.05)\<close> too, which is not the radian
  range multiplied by \<open>180 / \<pi>\<close>.
\<close>

theorem degree_axis_not_synchronized_at_rest:
  "update (1/2) [velocities_sample 0 [0, 0, 0, 0, 0, 0, 0, 0, 0, 0]] init_dash
     = Inr (after (update (1/2) [velocities_sample 0 [0, 0, 0, 0, 0, 0, 0, 0, 0, 0]] init_dash))
   \<and> ylim (ax_vel (after (update (1/2) [velocities_sample 0 [0, 0, 0, 0, 0, 0, 0, 0, 0, 0]]
         init_dash))) = (- (1/20), 1/20)
   \<and> ax_vel_deg (after (update (1/2) [velocities_sample 0 [0, 0, 0, 0, 0, 0, 0, 0, 0, 0]]
         init_dash)) = (- (1/20), 1/20)
   \<and> ax_vel_deg (after (update (1/2) [velocities_sample 0 [0, 0, 0, 0, 0, 0, 0, 0, 0, 0]]
         init_dash))
       \<noteq> (fst (ylim (ax_vel (after (update (1/2)
               [velocities_sample 0 [0, 0, 0, 0, 0, 0, 0, 0, 0, 0]] init_dash)))) * 180 / pi,
          snd (ylim (ax_vel (after (update (1/2)
               [velocities_sample 0 [0, 0, 0, 0, 0, 0, 0, 0, 0, 0]] init_dash)))) * 180 / pi)"
proof -
  let ?u = "update (1/2) [velocities_sample 0 [0, 0, 0, 0, 0, 0, 0, 0, 0, 0]] init_dash"
  have r: "?u = Inr (after ?u)" by (simp add: eval_defs rad2deg_def)
  have y: "ylim (ax_vel (after ?u)) = (- (1/20), 1/20)" by (simp add: eval_defs rad2deg_def)
  have d: "ax_vel_deg (after ?u) = (- (1/20), 1/20)" by (simp add: eval_defs rad2deg_def)
  have "ax_vel_deg (after ?u)
      \<noteq> (fst (ylim (ax_vel (after ?u))) * 180 / pi, snd (ylim (ax_vel (after ?u))) * 180 / pi)"
    unfolding y d using deg_factor_not_one by simp
  with r y d show ?thesis by blast
qed



end
